theory Spec2Isabelle
  imports Main
begin

section \<open>Values and rows\<close>

text \<open>
  JavaScript values as far as the driver inspects them. Numbers are modelled as
  integers (the driver never computes with them, it only binds and prints them);
  an object is the list of its own enumerable properties in insertion order,
  which is the order \<^verbatim>\<open>Object.keys\<close> enumerates them in (for keys that
  are not array indices).
\<close>

datatype jsval =
    Null
  | Undefined
  | Num int
  | Str string
  | Bool bool
  | DateV int
  | BigInt int
  | Obj "(string \<times> jsval) list"
  | Arr "jsval list"
  | Func

type_synonym row = "(string \<times> jsval) list"

text \<open>\<^verbatim>\<open>v === null || v === undefined\<close>\<close>

definition isNullish :: "jsval \<Rightarrow> bool" where
  "isNullish v = (v = Null \<or> v = Undefined)"

text \<open>\<^verbatim>\<open>obj[k]\<close>: the property, or \<^verbatim>\<open>undefined\<close> when it is absent.\<close>

definition getProp :: "row \<Rightarrow> string \<Rightarrow> jsval" where
  "getProp r k = (case map_of r k of None \<Rightarrow> Undefined | Some v \<Rightarrow> v)"

text \<open>\<^verbatim>\<open>obj[k] = v\<close>: overwrite in place, or append a new property.\<close>

fun setProp :: "row \<Rightarrow> string \<Rightarrow> jsval \<Rightarrow> row" where
  "setProp [] k v = [(k, v)]"
| "setProp ((k', v') # r) k v =
     (if k' = k then (k', v) # r else (k', v') # setProp r k v)"

text \<open>\<^verbatim>\<open>xs[0]\<close> on an array of rows: the first row, or \<^verbatim>\<open>undefined\<close>.\<close>

definition firstRow :: "row list \<Rightarrow> jsval" where
  "firstRow rs = (case rs of [] \<Rightarrow> Undefined | r # _ \<Rightarrow> Obj r)"

section \<open>Characters and strings (ASCII)\<close>

text \<open>
  Strings are modelled as ASCII character lists. \<^verbatim>\<open>toLowerCase\<close> and
  \<^verbatim>\<open>toUpperCase\<close> on a one-character string act on the 26 letters and
  leave every other ASCII character alone.
\<close>

definition DQ :: char where
  "DQ = CHR 0x22"

definition BSL :: char where
  "BSL = CHR 0x5C"

definition upperChars :: string where
  "upperChars = ''ABCDEFGHIJKLMNOPQRSTUVWXYZ''"

definition lowerChars :: string where
  "lowerChars = ''abcdefghijklmnopqrstuvwxyz''"

definition digitChars :: string where
  "digitChars = ''0123456789''"

definition toLowerCase :: "char \<Rightarrow> char" where
  "toLowerCase c = (case map_of (zip upperChars lowerChars) c of None \<Rightarrow> c | Some d \<Rightarrow> d)"

definition toUpperCase :: "char \<Rightarrow> char" where
  "toUpperCase c = (case map_of (zip lowerChars upperChars) c of None \<Rightarrow> c | Some d \<Rightarrow> d)"

text \<open>\<^verbatim>\<open>s.replace(p, r)\<close> with a one-character string pattern: first occurrence only.\<close>

fun replaceFirst :: "char \<Rightarrow> string \<Rightarrow> string \<Rightarrow> string" where
  "replaceFirst p r [] = []"
| "replaceFirst p r (c # cs) = (if c = p then r @ cs else c # replaceFirst p r cs)"

text \<open>\<^verbatim>\<open>s.replace(/[p]/g, r)\<close>: every occurrence of the character, left to right.\<close>

fun replaceAll :: "char \<Rightarrow> string \<Rightarrow> string \<Rightarrow> string" where
  "replaceAll p r [] = []"
| "replaceAll p r (c # cs) = (if c = p then r @ replaceAll p r cs else c # replaceAll p r cs)"

text \<open>\<^verbatim>\<open>xs.join(sep)\<close>\<close>

fun join :: "string \<Rightarrow> string list \<Rightarrow> string" where
  "join sep [] = []"
| "join sep [x] = x"
| "join sep (x # y # ys) = x @ sep @ join sep (y # ys)"

text \<open>Decimal rendering of a non-negative integer, as \<^verbatim>\<open>"" + i\<close> prints it.\<close>

definition digitChar :: "nat \<Rightarrow> char" where
  "digitChar d = digitChars ! (d mod 10)"

fun showNat :: "nat \<Rightarrow> string" where
  "showNat n = (if n < 10 then [digitChar n] else showNat (n div 10) @ [digitChar (n mod 10)])"

declare showNat.simps [simp del]

definition showInt :: "int \<Rightarrow> string" where
  "showInt i = (if i < 0 then ''-'' @ showNat (nat (- i)) else showNat (nat i))"

section \<open>utils.ts\<close>

subsection \<open>toSnakeCase\<close>

fun toSnakeCase_loop :: "string \<Rightarrow> string \<Rightarrow> string" where
  "toSnakeCase_loop [] result = result"
| "toSnakeCase_loop (c # cs) result =
     (if toLowerCase c \<noteq> c
      then toSnakeCase_loop cs (result @ ''_'' @ [toLowerCase c])
      else toSnakeCase_loop cs (result @ [c]))"

definition toSnakeCase :: "string \<Rightarrow> string" where
  "toSnakeCase camel = toSnakeCase_loop camel []"

subsection \<open>toCamelCase\<close>

fun toCamelCase_loop :: "string \<Rightarrow> string \<times> bool \<Rightarrow> string" where
  "toCamelCase_loop [] (result, nextUpper) = result"
| "toCamelCase_loop (c # cs) (result, nextUpper) =
     (if c = CHR ''_'' then toCamelCase_loop cs (result, True)
      else if nextUpper then toCamelCase_loop cs (result @ [toUpperCase c], False)
      else toCamelCase_loop cs (result @ [toLowerCase c], False))"

definition toCamelCase :: "string \<Rightarrow> string" where
  "toCamelCase snake = toCamelCase_loop snake ([], False)"

subsection \<open>replaceLikeWildcards\<close>

definition replaceLikeWildcards :: "string \<Rightarrow> string" where
  "replaceLikeWildcards str =
     replaceAll (CHR ''_'') [BSL, CHR ''_''] (replaceAll (CHR ''%'') [BSL, CHR ''%''] str)"

subsection \<open>toSQLCompatibleValue\<close>

text \<open>\<^verbatim>\<open>JSON.stringify\<close> belongs to the runtime; it is a parameter here.\<close>

fun toSQLCompatibleValue :: "(jsval \<Rightarrow> string) \<Rightarrow> jsval \<Rightarrow> jsval" where
  "toSQLCompatibleValue stringify Null = Null"
| "toSQLCompatibleValue stringify Undefined = Null"
| "toSQLCompatibleValue stringify (Num n) = Num n"
| "toSQLCompatibleValue stringify (Str s) = Str s"
| "toSQLCompatibleValue stringify (DateV d) = DateV d"
| "toSQLCompatibleValue stringify (Obj ps) = Str (stringify (Obj ps))"
| "toSQLCompatibleValue stringify (Arr xs) = Str (stringify (Arr xs))"
| "toSQLCompatibleValue stringify (BigInt n) = Str (showInt n)"
| "toSQLCompatibleValue stringify (Bool b) = Num (if b then 1 else 0)"
| "toSQLCompatibleValue stringify Func = Null"

subsection \<open>normalizeSQLResults\<close>

fun normalizeRow_loop :: "row \<Rightarrow> row \<Rightarrow> row" where
  "normalizeRow_loop [] r = r"
| "normalizeRow_loop ((key, v) # rest) r = normalizeRow_loop rest (setProp r (toCamelCase key) v)"

fun normalizeSQLResults_loop :: "row list \<Rightarrow> row list \<Rightarrow> row list" where
  "normalizeSQLResults_loop [] trueResults = trueResults"
| "normalizeSQLResults_loop (result # rest) trueResults =
     normalizeSQLResults_loop rest (trueResults @ [normalizeRow_loop result []])"

definition normalizeSQLResults :: "row list \<Rightarrow> row list" where
  "normalizeSQLResults results = normalizeSQLResults_loop results []"

subsection \<open>reverseRegexp\<close>

datatype regexp = RegExp (source: string) (flags: string)

fun reverseRegexp_loop :: "string \<Rightarrow> string \<times> bool \<Rightarrow> string" where
  "reverseRegexp_loop [] (result, nextEscape) = result"
| "reverseRegexp_loop (c # cs) (result, nextEscape) =
     (if c = BSL then
        (if nextEscape then reverseRegexp_loop cs (result @ [c], False)
         else reverseRegexp_loop cs (result, True))
      else reverseRegexp_loop cs (result @ [c], False))"

definition reverseRegexp :: "regexp \<Rightarrow> string" where
  "reverseRegexp exp = reverseRegexp_loop (source exp) ([], False)"

subsection \<open>toPostgresTemplate\<close>

text \<open>
  The replacement text \<^verbatim>\<open>"$" + i\<close> is inserted literally: with a string
  pattern there are no capture groups for \<^verbatim>\<open>$1\<close> to refer to.
\<close>

function toPostgresTemplate_loop :: "string \<Rightarrow> nat \<Rightarrow> string" where
  "toPostgresTemplate_loop queryTemplate i =
     (if CHR ''?'' \<in> set queryTemplate
      then toPostgresTemplate_loop
             (replaceFirst (CHR ''?'') (CHR ''$'' # showNat i) queryTemplate) (i + 1)
      else queryTemplate)"
  by pat_completeness auto
termination
proof (relation "measure (\<lambda>(q, i). count_list q (CHR ''?''))")
  show "wf (measure (\<lambda>(q, i). count_list q (CHR ''?'')))" by simp
next
  fix queryTemplate :: string and i :: nat
  assume a: "CHR ''?'' \<in> set queryTemplate"
  have d: "CHR ''?'' \<noteq> digitChar k" for k
  proof -
    have "digitChar k \<in> set digitChars"
      unfolding digitChar_def by (rule nth_mem) (simp add: digitChars_def)
    then show ?thesis by (auto simp: digitChars_def)
  qed
  have nq: "CHR ''?'' \<notin> set (showNat n)" for n
  proof (induction n rule: showNat.induct)
    case (1 n)
    show ?case
    proof (cases "n < 10")
      case True
      then show ?thesis using d by (simp add: showNat.simps [of n])
    next
      case False
      then show ?thesis using d 1 by (simp add: showNat.simps [of n])
    qed
  qed
  have cnt: "count_list (replaceFirst p r q) p + 1 = count_list q p + count_list r p"
    if "p \<in> set q" for p :: char and r q
    using that by (induction q) auto
  have "count_list (CHR ''$'' # showNat i) (CHR ''?'') = 0"
    using nq [of i] by (simp add: count_list_0_iff)
  with cnt [OF a, of "CHR ''$'' # showNat i"]
  show "((replaceFirst (CHR ''?'') (CHR ''$'' # showNat i) queryTemplate, i + 1), (queryTemplate, i))
          \<in> measure (\<lambda>(q, i). count_list q (CHR ''?''))"
    by simp
qed

declare toPostgresTemplate_loop.simps [simp del]

definition toPostgresTemplate :: "string \<Rightarrow> string" where
  "toPostgresTemplate queryTemplate = toPostgresTemplate_loop queryTemplate 1"

section \<open>filtering.ts\<close>

text \<open>
  \<^verbatim>\<open>GenericFilter\<close> of the ORM: a tagged union on \<^verbatim>\<open>operation\<close>;
  \<open>NoFilter\<close> is the falsy filter (\<^verbatim>\<open>null\<close> or \<^verbatim>\<open>undefined\<close>).
\<close>

datatype filter =
    NoFilter
  | FAnd "filter list"
  | FOr "filter list"
  | FNot filter
  | FRegex string regexp
  | FIn string "jsval list"
  | FExists string bool
  | FEq string jsval
  | FNe string jsval
  | FGt string jsval
  | FLt string jsval
  | FGte string jsval
  | FLte string jsval

text \<open>
  The loop of the \<^verbatim>\<open>and\<close> and \<^verbatim>\<open>or\<close> cases over the compiled
  children; the state is \<open>(first, query, values)\<close>.
\<close>

fun children_loop ::
  "string \<Rightarrow> (string \<times> jsval list) list \<Rightarrow> bool \<times> string \<times> jsval list
     \<Rightarrow> bool \<times> string \<times> jsval list" where
  "children_loop sep [] st = st"
| "children_loop sep (child # rest) (first, query, values) =
     (if length (fst child) > 0 then
        children_loop sep rest
          (False, (if first then query else query @ sep) @ ''( '' @ fst child @ '' )'',
           values @ snd child)
      else children_loop sep rest (first, query, values))"

text \<open>The loop of the \<^verbatim>\<open>in\<close> case; the state is \<open>(first, subquery, values)\<close>.\<close>

fun in_loop ::
  "string \<Rightarrow> jsval list \<Rightarrow> bool \<times> string \<times> jsval list \<Rightarrow> bool \<times> string \<times> jsval list" where
  "in_loop col [] st = st"
| "in_loop col (v # vs) (first, subquery, values) =
     in_loop col vs
       (False, (if first then subquery else subquery @ '' OR '') @ ''('' @ [DQ] @ col @ [DQ] @ '' = ?)'',
        values @ [v])"

definition startsWith :: "string \<Rightarrow> char \<Rightarrow> bool" where
  "startsWith s c = (case s of [] \<Rightarrow> False | x # _ \<Rightarrow> x = c)"

definition endsWith :: "string \<Rightarrow> char \<Rightarrow> bool" where
  "endsWith s c = (s \<noteq> [] \<and> last s = c)"

fun filterToSQL :: "(string \<Rightarrow> string) \<Rightarrow> filter \<Rightarrow> string \<times> jsval list" where
  "filterToSQL idConverter NoFilter = ([], [])"
| "filterToSQL idConverter (FAnd children) =
     (case children_loop '' AND '' (map (filterToSQL idConverter) children) (True, [], []) of
        (first, query, values) \<Rightarrow> (query, values))"
| "filterToSQL idConverter (FOr children) =
     (case children_loop '' OR '' (map (filterToSQL idConverter) children) (True, [], []) of
        (first, query, values) \<Rightarrow> (query, values))"
| "filterToSQL idConverter (FNot child) =
     (case filterToSQL idConverter child of
        (cq, cv) \<Rightarrow> if length cq > 0 then (''NOT( '' @ cq @ '' )'', cv) else ([], []))"
| "filterToSQL idConverter (FRegex field val) =
     (let rStr = reverseRegexp val;
          query = (if CHR ''i'' \<in> set (flags val)
                   then ''UPPER('' @ [DQ] @ idConverter field @ [DQ] @ '') LIKE UPPER(?)''
                   else [DQ] @ idConverter field @ [DQ] @ '' LIKE ?'')
      in if startsWith rStr (CHR ''^'')
         then (query, [Str (replaceLikeWildcards (drop 1 rStr) @ ''%'')])
         else if endsWith rStr (CHR ''$'')
         then (query, [Str (''%'' @ replaceLikeWildcards (take (length rStr - 1) rStr))])
         else (query, [Str (''%'' @ replaceLikeWildcards rStr @ ''%'')]))"
| "filterToSQL idConverter (FIn field vs) =
     (case in_loop (idConverter field) vs (True, [], []) of
        (first, subquery, values) \<Rightarrow>
          if length subquery > 0 then (''('' @ subquery @ '')'', values) else ([], values))"
| "filterToSQL idConverter (FExists key ex) =
     (if ex then ([DQ] @ idConverter key @ [DQ] @ '' IS NOT NULL'', [])
      else ([DQ] @ idConverter key @ [DQ] @ '' IS NULL'', []))"
| "filterToSQL idConverter (FEq key v) =
     (if v = Null \<or> v = Undefined then ([DQ] @ idConverter key @ [DQ] @ '' IS NULL'', [])
      else ([DQ] @ idConverter key @ [DQ] @ '' = ?'', [v]))"
| "filterToSQL idConverter (FNe key v) =
     (if v = Null \<or> v = Undefined then ([DQ] @ idConverter key @ [DQ] @ '' IS NOT NULL'', [])
      else ([DQ] @ idConverter key @ [DQ] @ '' != ?'', [v]))"
| "filterToSQL idConverter (FGt key v) = ([DQ] @ idConverter key @ [DQ] @ '' > ?'', [v])"
| "filterToSQL idConverter (FLt key v) = ([DQ] @ idConverter key @ [DQ] @ '' < ?'', [v])"
| "filterToSQL idConverter (FGte key v) = ([DQ] @ idConverter key @ [DQ] @ '' >= ?'', [v])"
| "filterToSQL idConverter (FLte key v) = ([DQ] @ idConverter key @ [DQ] @ '' <= ?'', [v])"

section \<open>driver.ts\<close>

subsection \<open>Identifier conversion\<close>

record NameConversion =
  parseResults :: "row list \<Rightarrow> row list"
  toSQL :: "string \<Rightarrow> string"
  toBean :: "string \<Rightarrow> string"

record PostgreSQLSourceConfiguration =
  disableIdentifierConversion :: bool
  customIdentifierConversion :: "NameConversion option"

text \<open>The conversion the constructor installs.\<close>

definition idConversionOf :: "PostgreSQLSourceConfiguration \<Rightarrow> NameConversion" where
  "idConversionOf config =
     (case customIdentifierConversion config of
        Some custom \<Rightarrow> custom
      | None \<Rightarrow>
          if disableIdentifierConversion config
          then \<lparr>parseResults = (\<lambda>a. a), toSQL = (\<lambda>a. a), toBean = (\<lambda>a. a)\<rparr>
          else \<lparr>parseResults = normalizeSQLResults, toSQL = toSnakeCase, toBean = toCamelCase\<rparr>)"

definition defaultConfiguration :: PostgreSQLSourceConfiguration where
  "defaultConfiguration =
     \<lparr>disableIdentifierConversion = False, customIdentifierConversion = None\<rparr>"

subsection \<open>The connection pool, promises and observable events\<close>

type_synonym err = string

datatype query_result = QueryResult (rows: "row list option") (rowCount: nat)

text \<open>
  \<^verbatim>\<open>pool.query(sentence, values, callback)\<close>: the pool answers a statement with
  an error or a result, which the callback receives.
\<close>

type_synonym pool = "string \<Rightarrow> jsval list \<Rightarrow> err + query_result"

text \<open>
  What a call does to the outside world, in order. A promise is resolved, rejected,
  or left unsettled for ever; \<open>ReturnsUndefined\<close> is a method body that ends in a
  bare \<^verbatim>\<open>return;\<close> and so hands back \<^verbatim>\<open>undefined\<close> instead of a promise.
\<close>

datatype event =
    Query string "jsval list"
  | Callback jsval
  | PoolConnect
  | OpenCursor string "jsval list"
  | CursorRead nat
  | Each jsval
  | CursorClose
  | ClientRelease

datatype promise = Resolved jsval | Rejected err | Unsettled

datatype ret = ReturnsUndefined | ReturnsPromise promise

text \<open>\<^verbatim>\<open>await x\<close>: a value that is not a promise is awaited as itself.\<close>

fun await :: "ret \<Rightarrow> promise" where
  "await ReturnsUndefined = Resolved Undefined"
| "await (ReturnsPromise p) = p"

subsection \<open>findByKey\<close>

definition findByKey ::
  "NameConversion \<Rightarrow> pool \<Rightarrow> string \<Rightarrow> string \<Rightarrow> jsval \<Rightarrow> event list \<times> promise" where
  "findByKey this pool table keyName keyValue =
     (let sentence = ''SELECT * FROM '' @ [DQ] @ table @ [DQ] @ '' WHERE '' @ [DQ]
                       @ toSQL this keyName @ [DQ] @ '' = $1'';
          values = [keyValue]
      in ([Query sentence values],
          case pool sentence values of
            Inl error \<Rightarrow> Rejected error
          | Inr results \<Rightarrow>
              (case rows results of
                 None \<Rightarrow> Resolved Null
               | Some rs \<Rightarrow>
                   if length rs > 0 then Resolved (firstRow (parseResults this rs))
                   else Resolved Null)))"

subsection \<open>The WHERE clause shared by the statement builders\<close>

definition appendWhere ::
  "NameConversion \<Rightarrow> filter \<Rightarrow> string \<times> jsval list \<Rightarrow> string \<times> jsval list" where
  "appendWhere this flt sv =
     (case sv of (sentence, values) \<Rightarrow>
        (case filterToSQL (toSQL this) flt of (cq, cv) \<Rightarrow>
           if length cq > 0 then (sentence @ '' WHERE '' @ cq, values @ cv)
           else (sentence, values)))"

subsection \<open>generateSelectSentence\<close>

datatype SortDirection = Asc | Desc

text \<open>
  The sentence before the placeholder rewrite. \<open>projection\<close> is the set's keys in
  insertion order, \<open>None\<close> for \<^verbatim>\<open>null\<close>; \<open>sortBy\<close> is \<open>None\<close> for
  \<^verbatim>\<open>null\<close>, and the empty string is falsy too; \<open>skip\<close> and \<open>limit\<close> are
  \<open>None\<close> for \<^verbatim>\<open>null\<close>.
\<close>

definition selectSentence ::
  "NameConversion \<Rightarrow> string \<Rightarrow> filter \<Rightarrow> string option \<Rightarrow> SortDirection option
     \<Rightarrow> int option \<Rightarrow> int option \<Rightarrow> string list option \<Rightarrow> string \<times> jsval list" where
  "selectSentence this table flt sortBy sortDir skip limit projection =
     (let s1 = ''SELECT '' @
                 (case projection of
                    Some toProject \<Rightarrow> join '', '' (map (\<lambda>f. [DQ] @ toSQL this f @ [DQ]) toProject)
                  | None \<Rightarrow> ''*'');
          s2 = s1 @ '' FROM '' @ [DQ] @ table @ [DQ];
          (s3, values) = appendWhere this flt (s2, []);
          s4 = (case sortBy of
                  Some sb \<Rightarrow>
                    if sb \<noteq> [] then
                      s3 @ '' ORDER BY '' @ [DQ] @ toSQL this sb @ [DQ] @ '' ''
                         @ (if sortDir = Some Desc then ''DESC'' else ''ASC'')
                    else s3
                | None \<Rightarrow> s3);
          s5 = (case limit of
                  Some l \<Rightarrow> if l \<ge> 0 then s4 @ '' LIMIT '' @ showInt l else s4
                | None \<Rightarrow> s4);
          s6 = (case skip of
                  Some k \<Rightarrow> if k \<ge> 0 then s5 @ '' OFFSET '' @ showInt k else s5
                | None \<Rightarrow> s5)
      in (s6, values))"

definition generateSelectSentence ::
  "NameConversion \<Rightarrow> string \<Rightarrow> filter \<Rightarrow> string option \<Rightarrow> SortDirection option
     \<Rightarrow> int option \<Rightarrow> int option \<Rightarrow> string list option \<Rightarrow> string \<times> jsval list" where
  "generateSelectSentence this table flt sortBy sortDir skip limit projection =
     (case selectSentence this table flt sortBy sortDir skip limit projection of
        (sentence, values) \<Rightarrow> (toPostgresTemplate sentence, values))"

subsection \<open>count, deleteMany, sum: the statement handed to the pool\<close>

definition countSentence :: "NameConversion \<Rightarrow> string \<Rightarrow> filter \<Rightarrow> string \<times> jsval list" where
  "countSentence this table flt =
     appendWhere this flt
       (''SELECT COUNT(*) AS '' @ [DQ] @ ''count'' @ [DQ] @ '' FROM '' @ [DQ] @ table @ [DQ], [])"

definition count_statement :: "NameConversion \<Rightarrow> string \<Rightarrow> filter \<Rightarrow> string \<times> jsval list" where
  "count_statement this table flt =
     (case countSentence this table flt of
        (sentence, values) \<Rightarrow> (toPostgresTemplate sentence, values))"

definition deleteManySentence :: "NameConversion \<Rightarrow> string \<Rightarrow> filter \<Rightarrow> string \<times> jsval list" where
  "deleteManySentence this table flt =
     appendWhere this flt (''DELETE FROM '' @ [DQ] @ table @ [DQ], [])"

definition deleteMany_statement :: "NameConversion \<Rightarrow> string \<Rightarrow> filter \<Rightarrow> string \<times> jsval list" where
  "deleteMany_statement this table flt =
     (case deleteManySentence this table flt of
        (sentence, values) \<Rightarrow> (toPostgresTemplate sentence, values))"

definition sumSentence ::
  "NameConversion \<Rightarrow> string \<Rightarrow> filter \<Rightarrow> string \<Rightarrow> string \<times> jsval list" where
  "sumSentence this table flt field =
     appendWhere this flt
       (''SELECT SUM('' @ [DQ] @ toSQL this field @ [DQ] @ '') AS '' @ [DQ] @ toSQL this field @ [DQ]
          @ '' FROM '' @ [DQ] @ table @ [DQ], [])"

definition sum_statement ::
  "NameConversion \<Rightarrow> string \<Rightarrow> filter \<Rightarrow> string \<Rightarrow> string \<times> jsval list" where
  "sum_statement this table flt field =
     (case sumSentence this table flt field of
        (sentence, values) \<Rightarrow> (toPostgresTemplate sentence, values))"

subsection \<open>Streaming reads\<close>

definition CURSOR_READ_AMOUNT :: nat where
  "CURSOR_READ_AMOUNT = 100"

text \<open>
  The server-side cursor is the list of answers it gives to successive
  \<^verbatim>\<open>cursor.read\<close> calls; once they are used up every further read yields no
  rows. \<open>connect\<close> is \<open>Some ex\<close> when \<^verbatim>\<open>pool.connect()\<close> fails. The per-row
  handler \<open>each\<close> either completes (\<open>None\<close>) or raises (\<open>Some ex\<close>: a thrown
  exception, or a rejected promise for the suspending handler).
\<close>

datatype read_result = ReadError err | ReadRows "row list"

text \<open>The \<^verbatim>\<open>for (const row of partialResults)\<close> loop; \<open>Some ex\<close> is an exception escaping it.\<close>

fun each_loop ::
  "NameConversion \<Rightarrow> (jsval \<Rightarrow> err option) \<Rightarrow> row list \<Rightarrow> event list
     \<Rightarrow> event list \<times> err option" where
  "each_loop this each [] tr = (tr, None)"
| "each_loop this each (row # rest) tr =
     (let arg = firstRow (parseResults this [row]) in
      case each arg of
        Some ex \<Rightarrow> (tr @ [Each arg], Some ex)
      | None \<Rightarrow> each_loop this each rest (tr @ [Each arg]))"

text \<open>
  The \<^verbatim>\<open>while (!resultsEnded)\<close> loop. A read error is answered with
  \<^verbatim>\<open>resolve([])\<close>, so it ends the loop like an empty batch.
\<close>

fun read_loop ::
  "NameConversion \<Rightarrow> (jsval \<Rightarrow> err option) \<Rightarrow> read_result list \<Rightarrow> event list
     \<Rightarrow> event list \<times> err option" where
  "read_loop this each [] tr = (tr @ [CursorRead CURSOR_READ_AMOUNT], None)"
| "read_loop this each (ReadError e # cursor) tr = (tr @ [CursorRead CURSOR_READ_AMOUNT], None)"
| "read_loop this each (ReadRows partialResults # cursor) tr =
     (if length partialResults > 0 then
        (case each_loop this each partialResults (tr @ [CursorRead CURSOR_READ_AMOUNT]) of
           (tr', Some ex) \<Rightarrow> (tr', Some ex)
         | (tr', None) \<Rightarrow> read_loop this each cursor tr')
      else (tr @ [CursorRead CURSOR_READ_AMOUNT], None))"

text \<open>
  The executor is an \<^verbatim>\<open>async function\<close> whose own promise nobody observes:
  an exception that escapes the loop ends it without calling \<^verbatim>\<open>resolve\<close>,
  \<^verbatim>\<open>reject\<close>, \<^verbatim>\<open>cursor.close\<close> or \<^verbatim>\<open>client.release\<close>.
\<close>

definition findStream ::
  "NameConversion \<Rightarrow> err option \<Rightarrow> read_result list \<Rightarrow> string \<Rightarrow> filter \<Rightarrow> string option
     \<Rightarrow> SortDirection option \<Rightarrow> int option \<Rightarrow> int option \<Rightarrow> string list option
     \<Rightarrow> (jsval \<Rightarrow> err option) \<Rightarrow> event list \<times> promise" where
  "findStream this connect cursor table flt sortBy sortDir skip limit projection each =
     (case generateSelectSentence this table flt sortBy sortDir skip limit projection of
        (sentence, values) \<Rightarrow>
          (case connect of
             Some ex \<Rightarrow> ([PoolConnect], Rejected ex)
           | None \<Rightarrow>
               (case read_loop this each cursor [PoolConnect, OpenCursor sentence values] of
                  (tr, Some ex) \<Rightarrow> (tr, Unsettled)
                | (tr, None) \<Rightarrow> (tr @ [CursorClose, ClientRelease], Resolved Undefined))))"

definition findStreamSync ::
  "NameConversion \<Rightarrow> err option \<Rightarrow> read_result list \<Rightarrow> string \<Rightarrow> filter \<Rightarrow> string option
     \<Rightarrow> SortDirection option \<Rightarrow> int option \<Rightarrow> int option \<Rightarrow> string list option
     \<Rightarrow> (jsval \<Rightarrow> err option) \<Rightarrow> event list \<times> promise" where
  "findStreamSync this connect cursor table flt sortBy sortDir skip limit projection each =
     (case generateSelectSentence this table flt sortBy sortDir skip limit projection of
        (sentence, values) \<Rightarrow>
          (case connect of
             Some ex \<Rightarrow> ([PoolConnect], Rejected ex)
           | None \<Rightarrow>
               (case read_loop this each cursor [PoolConnect, OpenCursor sentence values] of
                  (tr, Some ex) \<Rightarrow> (tr, Unsettled)
                | (tr, None) \<Rightarrow> (tr @ [CursorClose, ClientRelease], Resolved Undefined))))"

subsection \<open>insert\<close>

text \<open>The loop over \<^verbatim>\<open>Object.keys(row)\<close>; the state is \<open>(sqlKeys, values, qm)\<close>.\<close>

fun insert_loop ::
  "NameConversion \<Rightarrow> (jsval \<Rightarrow> string) \<Rightarrow> row \<Rightarrow> string option \<Rightarrow> string list
     \<Rightarrow> string list \<times> jsval list \<times> string list \<Rightarrow> string list \<times> jsval list \<times> string list" where
  "insert_loop this stringify row key [] st = st"
| "insert_loop this stringify row key (k # ks) (sqlKeys, values, qm) =
     (if key = Some k \<and> (getProp row k = Null \<or> getProp row k = Undefined)
      then insert_loop this stringify row key ks (sqlKeys, values, qm)
      else insert_loop this stringify row key ks
             (sqlKeys @ [[DQ] @ toSQL this k @ [DQ]],
              values @ [toSQLCompatibleValue stringify (getProp row k)],
              qm @ [''?'']))"

text \<open>
  \<open>key\<close> is \<open>None\<close> for \<^verbatim>\<open>null\<close> (as \<^verbatim>\<open>batchInsert\<close> passes it).
  The third component names the key whose value the statement returns, when
  \<^verbatim>\<open>insertReturns\<close> is set.
\<close>

definition insertSentence ::
  "NameConversion \<Rightarrow> (jsval \<Rightarrow> string) \<Rightarrow> string \<Rightarrow> row \<Rightarrow> string option
     \<Rightarrow> string \<times> jsval list \<times> string option" where
  "insertSentence this stringify table row key =
     (case insert_loop this stringify row key (map fst row) ([], [], []) of
        (sqlKeys, values, qm) \<Rightarrow>
          (let sentence = ''INSERT INTO '' @ [DQ] @ table @ [DQ] @ ''('' @ join '','' sqlKeys
                            @ '') VALUES ('' @ join '','' qm @ '')''
           in case key of
                Some k \<Rightarrow>
                  if k \<noteq> [] \<and> (getProp row k = Null \<or> getProp row k = Undefined)
                  then (sentence @ '' RETURNING '' @ [DQ] @ toSQL this k @ [DQ], values, Some k)
                  else (sentence, values, None)
              | None \<Rightarrow> (sentence, values, None)))"

text \<open>
  \<open>callback\<close> tells whether the optional callback was passed. Calling an absent
  callback throws inside the pool's callback, and the promise is never settled.
\<close>

definition insert_row ::
  "NameConversion \<Rightarrow> (jsval \<Rightarrow> string) \<Rightarrow> pool \<Rightarrow> string \<Rightarrow> row \<Rightarrow> string option \<Rightarrow> bool
     \<Rightarrow> event list \<times> promise" where
  "insert_row this stringify pool table row key callback =
     (case insertSentence this stringify table row key of
        (sentence, values, insertReturns) \<Rightarrow>
          (let sql = toPostgresTemplate sentence in
           case pool sql values of
             Inl error \<Rightarrow> ([Query sql values], Rejected error)
           | Inr results \<Rightarrow>
               (case insertReturns of
                  None \<Rightarrow> ([Query sql values], Resolved Undefined)
                | Some k \<Rightarrow>
                    (case rows results of
                       Some (r # rs) \<Rightarrow>
                         if callback
                         then ([Query sql values, Callback (getProp r (toSQL this k))],
                               Resolved Undefined)
                         else ([Query sql values], Unsettled)
                     | _ \<Rightarrow> ([Query sql values], Resolved Undefined)))))"

subsection \<open>update\<close>

fun update_loop ::
  "NameConversion \<Rightarrow> (jsval \<Rightarrow> string) \<Rightarrow> row \<Rightarrow> string list
     \<Rightarrow> bool \<times> string \<times> jsval list \<Rightarrow> bool \<times> string \<times> jsval list" where
  "update_loop this stringify updated [] st = st"
| "update_loop this stringify updated (key # keys) (first, sentence, values) =
     update_loop this stringify updated keys
       (False,
        (if first then sentence else sentence @ '', '') @ [DQ] @ toSQL this key @ [DQ] @ '' = ?'',
        values @ [toSQLCompatibleValue stringify (getProp updated key)])"

definition updateSentence ::
  "NameConversion \<Rightarrow> (jsval \<Rightarrow> string) \<Rightarrow> string \<Rightarrow> string \<Rightarrow> jsval \<Rightarrow> row
     \<Rightarrow> string \<times> jsval list" where
  "updateSentence this stringify table keyName keyValue updated =
     (case update_loop this stringify updated (map fst updated)
             (True, ''UPDATE '' @ [DQ] @ table @ [DQ] @ '' SET '', []) of
        (first, sentence, values) \<Rightarrow>
          (sentence @ '' WHERE '' @ [DQ] @ toSQL this keyName @ [DQ] @ '' = ?'',
           values @ [keyValue]))"

definition update ::
  "NameConversion \<Rightarrow> (jsval \<Rightarrow> string) \<Rightarrow> pool \<Rightarrow> string \<Rightarrow> string \<Rightarrow> jsval \<Rightarrow> row
     \<Rightarrow> event list \<times> ret" where
  "update this stringify pool table keyName keyValue updated =
     (let keys = map fst updated in
      if length keys = 0 then ([], ReturnsUndefined)
      else
        (case updateSentence this stringify table keyName keyValue updated of
           (sentence, values) \<Rightarrow>
             (let sql = toPostgresTemplate sentence in
              ([Query sql values],
               ReturnsPromise
                 (case pool sql values of
                    Inl error \<Rightarrow> Rejected error
                  | Inr results \<Rightarrow> Resolved Undefined)))))"

subsection \<open>updateMany\<close>

text \<open>\<^verbatim>\<open>typeof v === "object" && v !== null\<close>\<close>

fun isObject :: "jsval \<Rightarrow> bool" where
  "isObject (Obj ps) = True"
| "isObject (Arr xs) = True"
| "isObject (DateV d) = True"
| "isObject v = False"

text \<open>\<^verbatim>\<open>v.name\<close> on a non-null object; arrays and dates have no such own property.\<close>

fun propertyOf :: "jsval \<Rightarrow> string \<Rightarrow> jsval" where
  "propertyOf (Obj ps) name = getProp ps name"
| "propertyOf v name = Undefined"

fun updateMany_loop ::
  "NameConversion \<Rightarrow> (jsval \<Rightarrow> string) \<Rightarrow> row \<Rightarrow> string list
     \<Rightarrow> bool \<times> string \<times> jsval list \<Rightarrow> bool \<times> string \<times> jsval list" where
  "updateMany_loop this stringify updated [] st = st"
| "updateMany_loop this stringify updated (key # keys) (first, sentence, values) =
     (let s = (if first then sentence else sentence @ '', '');
          u = getProp updated key;
          col = [DQ] @ toSQL this key @ [DQ]
      in if isObject u then
           (if propertyOf u ''update'' = Str ''set'' then
              updateMany_loop this stringify updated keys
                (False, s @ col @ '' = ?'',
                 values @ [toSQLCompatibleValue stringify (propertyOf u ''value'')])
            else if propertyOf u ''update'' = Str ''inc'' then
              updateMany_loop this stringify updated keys
                (False, s @ col @ '' = '' @ col @ '' + ?'',
                 values @ [toSQLCompatibleValue stringify (propertyOf u ''value'')])
            else
              updateMany_loop this stringify updated keys
                (False, s @ col @ '' = ?'', values @ [toSQLCompatibleValue stringify u]))
         else
           updateMany_loop this stringify updated keys
             (False, s @ col @ '' = ?'', values @ [toSQLCompatibleValue stringify u]))"

definition updateManySentence ::
  "NameConversion \<Rightarrow> (jsval \<Rightarrow> string) \<Rightarrow> string \<Rightarrow> filter \<Rightarrow> row \<Rightarrow> string \<times> jsval list" where
  "updateManySentence this stringify table flt updated =
     (case updateMany_loop this stringify updated (map fst updated)
             (True, ''UPDATE '' @ [DQ] @ table @ [DQ] @ '' SET '', []) of
        (first, sentence, values) \<Rightarrow> appendWhere this flt (sentence, values))"

definition updateMany ::
  "NameConversion \<Rightarrow> (jsval \<Rightarrow> string) \<Rightarrow> pool \<Rightarrow> string \<Rightarrow> filter \<Rightarrow> row
     \<Rightarrow> event list \<times> ret" where
  "updateMany this stringify pool table flt updated =
     (let keys = map fst updated in
      if length keys = 0 then ([], ReturnsUndefined)
      else
        (case updateManySentence this stringify table flt updated of
           (sentence, values) \<Rightarrow>
             (let sql = toPostgresTemplate sentence in
              ([Query sql values],
               ReturnsPromise
                 (case pool sql values of
                    Inl error \<Rightarrow> Rejected error
                  | Inr results \<Rightarrow> Resolved (Num (int (rowCount results))))))))"

section \<open>Reference notions\<close>

subsection \<open>Letters, digits and the two identifier conventions\<close>

definition isUpperLetter :: "char \<Rightarrow> bool" where
  "isUpperLetter c = (c \<in> set upperChars)"

definition isLowerLetter :: "char \<Rightarrow> bool" where
  "isLowerLetter c = (c \<in> set lowerChars)"

definition isDigit :: "char \<Rightarrow> bool" where
  "isDigit c = (c \<in> set digitChars)"

text \<open>
  Application convention: ASCII letters and digits only, word boundaries marked by
  capital letters, no separators.
\<close>

definition applicationConvention :: "string \<Rightarrow> bool" where
  "applicationConvention x = list_all (\<lambda>c. isUpperLetter c \<or> isLowerLetter c \<or> isDigit c) x"

text \<open>
  Storage convention: non-empty words of lower-case letters and digits, joined by
  single underscores. It is stated on the list of words.
\<close>

definition storageWord :: "string \<Rightarrow> bool" where
  "storageWord w = (w \<noteq> [] \<and> list_all (\<lambda>c. isLowerLetter c \<or> isDigit c) w)"

definition storageWords :: "string list \<Rightarrow> bool" where
  "storageWords ws = (ws \<noteq> [] \<and> list_all storageWord ws)"

definition joinWords :: "string list \<Rightarrow> string" where
  "joinWords ws = join ''_'' ws"

text \<open>A word that starts with a lower-case letter.\<close>

definition letterFirst :: "string \<Rightarrow> bool" where
  "letterFirst w = (case w of [] \<Rightarrow> False | c # _ \<Rightarrow> isLowerLetter c)"

subsection \<open>The columns of an INSERT\<close>

text \<open>
  The key whose generated value the statement has to return: the primary key, when
  one is named and the row gives it no value.
\<close>

definition autoKey :: "row \<Rightarrow> string option \<Rightarrow> string option" where
  "autoKey row key =
     (case key of
        Some k \<Rightarrow> if k \<noteq> [] \<and> isNullish (getProp row k) then Some k else None
      | None \<Rightarrow> None)"

text \<open>The row's fields in order, without the primary key when the row gives it no value.\<close>

definition insertColumns :: "row \<Rightarrow> string option \<Rightarrow> string list" where
  "insertColumns row key =
     filter (\<lambda>k. \<not> (key = Some k \<and> isNullish (getProp row k))) (map fst row)"

subsection \<open>LIKE patterns\<close>

text \<open>
  One layer of backslash escaping removed: an escaped character stands for itself
  (a double backslash for one backslash); a lone trailing backslash disappears.
\<close>

fun stripEscapes :: "string \<Rightarrow> string" where
  "stripEscapes [] = []"
| "stripEscapes [c] = (if c = BSL then [] else [c])"
| "stripEscapes (c # d # cs) =
     (if c = BSL then d # stripEscapes cs else c # stripEscapes (d # cs))"

text \<open>Every \<open>%\<close> and every \<open>_\<close> preceded by a backslash, all else unchanged.\<close>

definition likeEscape :: "string \<Rightarrow> string" where
  "likeEscape s =
     concat (map (\<lambda>c. if c = CHR ''%'' \<or> c = CHR ''_'' then [BSL, c] else [c]) s)"

text \<open>The prefix, suffix or substring pattern for a literal text.\<close>

definition likePattern :: "string \<Rightarrow> string" where
  "likePattern rStr =
     (case rStr of
        c # rest \<Rightarrow>
          if c = CHR ''^'' then likeEscape rest @ ''%''
          else if last rStr = CHR ''$'' then ''%'' @ likeEscape (butlast rStr)
          else ''%'' @ likeEscape rStr @ ''%''
      | [] \<Rightarrow> ''%%'')"

text \<open>
  How the database reads a LIKE pattern, with the backslash as the escape
  character (the default): a backslash makes the next character stand for itself,
  an unescaped \<open>%\<close> stands for any string and an unescaped \<open>_\<close> for any one
  character. A pattern that ends in a lone backslash is refused (\<open>None\<close>).
\<close>

datatype liketok = Lit char | AnyChar | AnyStr

fun likeTokens :: "string \<Rightarrow> liketok list option" where
  "likeTokens [] = Some []"
| "likeTokens [c] =
     (if c = BSL then None
      else if c = CHR ''%'' then Some [AnyStr]
      else if c = CHR ''_'' then Some [AnyChar]
      else Some [Lit c])"
| "likeTokens (c # d # cs) =
     (if c = BSL then map_option (\<lambda>ts. Lit d # ts) (likeTokens cs)
      else if c = CHR ''%'' then map_option (\<lambda>ts. AnyStr # ts) (likeTokens (d # cs))
      else if c = CHR ''_'' then map_option (\<lambda>ts. AnyChar # ts) (likeTokens (d # cs))
      else map_option (\<lambda>ts. Lit c # ts) (likeTokens (d # cs)))"

text \<open>Whether a text matches a tokenised pattern as a whole.\<close>

fun likeMatch :: "liketok list \<Rightarrow> string \<Rightarrow> bool" where
  "likeMatch [] s = (s = [])"
| "likeMatch (Lit c # ts) s = (case s of [] \<Rightarrow> False | x # xs \<Rightarrow> x = c \<and> likeMatch ts xs)"
| "likeMatch (AnyChar # ts) s = (case s of [] \<Rightarrow> False | x # xs \<Rightarrow> likeMatch ts xs)"
| "likeMatch (AnyStr # ts) s =
     (likeMatch ts s \<or> (case s of [] \<Rightarrow> False | x # xs \<Rightarrow> likeMatch (AnyStr # ts) xs))"

subsection \<open>Positional markers\<close>

text \<open>One left-to-right pass that writes \<open>$k\<close> for the placeholder number \<open>k\<close>.\<close>

fun renumber :: "nat \<Rightarrow> string \<Rightarrow> string" where
  "renumber k [] = []"
| "renumber k (c # cs) =
     (if c = CHR ''?'' then CHR ''$'' # showNat k @ renumber (k + 1) cs
      else c # renumber k cs)"

subsection \<open>Binding values to placeholders\<close>

text \<open>
  One left-to-right pass that writes the rendering of the \<open>i\<close>-th value in place of
  the \<open>i\<close>-th placeholder (a placeholder beyond the last value stays).
\<close>

fun bindPlaceholders :: "(jsval \<Rightarrow> string) \<Rightarrow> string \<Rightarrow> jsval list \<Rightarrow> string" where
  "bindPlaceholders r [] vs = []"
| "bindPlaceholders r (c # cs) vs =
     (if c = CHR ''?'' then
        (case vs of [] \<Rightarrow> c # bindPlaceholders r cs [] | v # vs' \<Rightarrow> r v @ bindPlaceholders r cs vs')
      else c # bindPlaceholders r cs vs)"

text \<open>The field names a filter mentions.\<close>

fun filterKeys :: "filter \<Rightarrow> string list" where
  "filterKeys NoFilter = []"
| "filterKeys (FAnd children) = concat (map filterKeys children)"
| "filterKeys (FOr children) = concat (map filterKeys children)"
| "filterKeys (FNot child) = filterKeys child"
| "filterKeys (FRegex field val) = [field]"
| "filterKeys (FIn field vs) = [field]"
| "filterKeys (FExists key ex) = [key]"
| "filterKeys (FEq key v) = [key]"
| "filterKeys (FNe key v) = [key]"
| "filterKeys (FGt key v) = [key]"
| "filterKeys (FLt key v) = [key]"
| "filterKeys (FGte key v) = [key]"
| "filterKeys (FLte key v) = [key]"

text \<open>
  The condition a filter stands for, written with each comparison value rendered in
  its own place instead of a placeholder: the text the fragment must come to once
  its values are bound.
\<close>

fun inlineFilter :: "(jsval \<Rightarrow> string) \<Rightarrow> (string \<Rightarrow> string) \<Rightarrow> filter \<Rightarrow> string" where
  "inlineFilter r idc NoFilter = []"
| "inlineFilter r idc (FAnd children) =
     join '' AND ''
       (map (\<lambda>t. ''( '' @ t @ '' )'') (filter (\<lambda>t. t \<noteq> []) (map (inlineFilter r idc) children)))"
| "inlineFilter r idc (FOr children) =
     join '' OR ''
       (map (\<lambda>t. ''( '' @ t @ '' )'') (filter (\<lambda>t. t \<noteq> []) (map (inlineFilter r idc) children)))"
| "inlineFilter r idc (FNot child) =
     (if inlineFilter r idc child = [] then [] else ''NOT( '' @ inlineFilter r idc child @ '' )'')"
| "inlineFilter r idc (FRegex field val) =
     (if CHR ''i'' \<in> set (flags val)
      then ''UPPER('' @ [DQ] @ idc field @ [DQ] @ '') LIKE UPPER(''
             @ r (Str (likePattern (stripEscapes (source val)))) @ '')''
      else [DQ] @ idc field @ [DQ] @ '' LIKE '' @ r (Str (likePattern (stripEscapes (source val)))))"
| "inlineFilter r idc (FIn field vs) =
     (if vs = [] then []
      else ''('' @ join '' OR '' (map (\<lambda>v. ''('' @ [DQ] @ idc field @ [DQ] @ '' = '' @ r v @ '')'') vs)
             @ '')'')"
| "inlineFilter r idc (FExists key ex) =
     [DQ] @ idc key @ [DQ] @ (if ex then '' IS NOT NULL'' else '' IS NULL'')"
| "inlineFilter r idc (FEq key v) =
     (if v = Null \<or> v = Undefined then [DQ] @ idc key @ [DQ] @ '' IS NULL''
      else [DQ] @ idc key @ [DQ] @ '' = '' @ r v)"
| "inlineFilter r idc (FNe key v) =
     (if v = Null \<or> v = Undefined then [DQ] @ idc key @ [DQ] @ '' IS NOT NULL''
      else [DQ] @ idc key @ [DQ] @ '' != '' @ r v)"
| "inlineFilter r idc (FGt key v) = [DQ] @ idc key @ [DQ] @ '' > '' @ r v"
| "inlineFilter r idc (FLt key v) = [DQ] @ idc key @ [DQ] @ '' < '' @ r v"
| "inlineFilter r idc (FGte key v) = [DQ] @ idc key @ [DQ] @ '' >= '' @ r v"
| "inlineFilter r idc (FLte key v) = [DQ] @ idc key @ [DQ] @ '' <= '' @ r v"

section \<open>Properties\<close>

lemmas char_tables = toLowerCase_def toUpperCase_def upperChars_def lowerChars_def

lemmas show_simps = showNat.simps digitChar_def digitChars_def

subsection \<open>Comparisons with equality\<close>

text \<open>
  Claim C7. For an \<open>Eq\<close> node whose value is null or absent the fragment is the
  quoted field followed by \<open>IS NULL\<close>, with no bound value; otherwise it is the
  quoted field followed by \<open>= ?\<close>, with exactly that value bound. A \<open>Ne\<close> node
  mirrors this with \<open>IS NOT NULL\<close> and \<open>!= ?\<close>.
\<close>

theorem eq_ne_fragments:
  "(v = Null \<or> v = Undefined \<longrightarrow>
      filterToSQL idc (FEq key v) = ([DQ] @ idc key @ [DQ] @ '' IS NULL'', []) \<and>
      filterToSQL idc (FNe key v) = ([DQ] @ idc key @ [DQ] @ '' IS NOT NULL'', [])) \<and>
   (v \<noteq> Null \<and> v \<noteq> Undefined \<longrightarrow>
      filterToSQL idc (FEq key v) = ([DQ] @ idc key @ [DQ] @ '' = ?'', [v]) \<and>
      filterToSQL idc (FNe key v) = ([DQ] @ idc key @ [DQ] @ '' != ?'', [v]))"
  by simp

theorem eq_ne_fragments_witness:
  "filterToSQL toSnakeCase (FEq ''age'' Null) = ([DQ] @ ''age'' @ [DQ] @ '' IS NULL'', []) \<and>
   filterToSQL toSnakeCase (FNe ''age'' Null) = ([DQ] @ ''age'' @ [DQ] @ '' IS NOT NULL'', []) \<and>
   filterToSQL toSnakeCase (FEq ''age'' (Num 5)) = ([DQ] @ ''age'' @ [DQ] @ '' = ?'', [Num 5]) \<and>
   filterToSQL toSnakeCase (FNe ''age'' (Num 5)) = ([DQ] @ ''age'' @ [DQ] @ '' != ?'', [Num 5])"
  using eq_ne_fragments [of Null toSnakeCase "''age''"]
    eq_ne_fragments [of "Num 5" toSnakeCase "''age''"]
  by (simp add: toSnakeCase_def char_tables)

subsection \<open>Filters that compile to nothing\<close>

lemma children_loop_all_empty:
  "\<forall>c \<in> set cs. fst c = [] \<Longrightarrow> children_loop sep cs st = st"
  by (induction cs arbitrary: st) (auto simp: split_paired_all)

text \<open>
  Claim C6. The null filter, an \<open>And\<close> or an \<open>Or\<close> whose children all compile to
  the empty fragment (in particular one without children), a \<open>Not\<close> whose child
  compiles to the empty fragment, and an \<open>In\<close> with no values all compile to the
  empty fragment with no values.
\<close>

theorem empty_filters:
  "filterToSQL idc NoFilter = ([], []) \<and>
   ((\<forall>c \<in> set children. fst (filterToSQL idc c) = []) \<longrightarrow>
      filterToSQL idc (FAnd children) = ([], []) \<and> filterToSQL idc (FOr children) = ([], [])) \<and>
   (fst (filterToSQL idc child) = [] \<longrightarrow> filterToSQL idc (FNot child) = ([], [])) \<and>
   filterToSQL idc (FIn field []) = ([], [])"
  by (auto simp: children_loop_all_empty split: prod.splits)

theorem empty_filters_witness:
  "filterToSQL toSnakeCase (FAnd []) = ([], []) \<and>
   filterToSQL toSnakeCase (FOr []) = ([], []) \<and>
   filterToSQL toSnakeCase (FAnd [NoFilter, FIn ''id'' [], FOr []]) = ([], []) \<and>
   filterToSQL toSnakeCase (FOr [NoFilter, FNot NoFilter]) = ([], []) \<and>
   filterToSQL toSnakeCase (FNot (FAnd [])) = ([], []) \<and>
   filterToSQL toSnakeCase (FIn ''id'' []) = ([], [])"
  using empty_filters [of toSnakeCase "[]" NoFilter "''id''"]
    empty_filters [of toSnakeCase "[NoFilter, FIn ''id'' [], FOr []]" "FAnd []" "''id''"]
    empty_filters [of toSnakeCase "[NoFilter, FNot NoFilter]" NoFilter "''id''"]
  by simp

subsection \<open>Updates with an empty descriptor\<close>

text \<open>
  Claim C9. When the update descriptor has no keys, \<open>update\<close> and \<open>updateMany\<close>
  hand no statement to the pool and have no other effect, and awaiting the call
  succeeds. (Both return \<^verbatim>\<open>undefined\<close> rather than a promise.)
\<close>

theorem empty_update_is_noop:
  "fst (update this stringify pool table keyName keyValue []) = [] \<and>
   await (snd (update this stringify pool table keyName keyValue [])) = Resolved Undefined \<and>
   fst (updateMany this stringify pool table flt []) = [] \<and>
   await (snd (updateMany this stringify pool table flt [])) = Resolved Undefined"
  by (simp add: update_def updateMany_def)

subsection \<open>Regular expressions as LIKE patterns\<close>

lemma reverseRegexp_loop_strip:
  "reverseRegexp_loop cs (res, False) = res @ stripEscapes cs \<and>
   reverseRegexp_loop cs (res, True) = res @ (case cs of [] \<Rightarrow> [] | d # ds \<Rightarrow> d # stripEscapes ds)"
proof (induction cs arbitrary: res)
  case Nil
  show ?case by simp
next
  case (Cons c cs)
  have t: "reverseRegexp_loop (c # cs) (res, True) = res @ c # stripEscapes cs"
    using Cons [of "res @ [c]"] by (cases "c = BSL") simp_all
  have f: "reverseRegexp_loop (c # cs) (res, False) = res @ stripEscapes (c # cs)"
  proof (cases "c = BSL")
    case True
    then show ?thesis using Cons [of res] by (cases cs) simp_all
  next
    case False
    then show ?thesis using Cons [of "res @ [c]"] by (cases cs) simp_all
  qed
  from t f show ?case by simp
qed

lemma reverseRegexp_strip: "reverseRegexp val = stripEscapes (source val)"
  using reverseRegexp_loop_strip [of "source val" "[]"] by (simp add: reverseRegexp_def)

lemma replaceAll_append: "replaceAll p r (a @ b) = replaceAll p r a @ replaceAll p r b"
  by (induction a) simp_all

lemma replaceLikeWildcards_likeEscape: "replaceLikeWildcards s = likeEscape s"
  by (induction s) (simp_all add: replaceLikeWildcards_def likeEscape_def BSL_def)

lemma regex_values:
  "snd (filterToSQL idc (FRegex field val)) = [Str (likePattern (stripEscapes (source val)))]"
proof (cases "stripEscapes (source val)")
  case Nil
  then show ?thesis
    by (simp add: reverseRegexp_strip Let_def startsWith_def endsWith_def likePattern_def
        replaceLikeWildcards_likeEscape likeEscape_def)
next
  case (Cons c rest)
  then show ?thesis
    by (simp add: reverseRegexp_strip Let_def startsWith_def endsWith_def likePattern_def
        replaceLikeWildcards_likeEscape butlast_conv_take del: butlast.simps last.simps)
qed

lemma regex_query:
  "fst (filterToSQL idc (FRegex field val)) =
     (if CHR ''i'' \<in> set (flags val)
      then ''UPPER('' @ [DQ] @ idc field @ [DQ] @ '') LIKE UPPER(?)''
      else [DQ] @ idc field @ [DQ] @ '' LIKE ?'')"
  by (simp add: Let_def)

text \<open>
  The text of the bound pattern. With \<open>rStr\<close> the pattern source with one layer of
  backslash escaping removed, the single bound value is the escaped \<open>rStr\<close>
  without its leading \<open>^\<close>, followed by \<open>%\<close>, when \<open>rStr\<close> starts with \<open>^\<close>;
  else \<open>%\<close> followed by the escaped \<open>rStr\<close> without its trailing \<open>$\<close>, when
  \<open>rStr\<close> ends with \<open>$\<close>; else the escaped \<open>rStr\<close> between two \<open>%\<close>, where
  escaping puts a backslash before every \<open>%\<close> and \<open>_\<close>. With the flag \<open>i\<close> the
  comparison is \<open>UPPER(field) LIKE UPPER(?)\<close>, without it \<open>field LIKE ?\<close>.
\<close>

lemma regex_pattern_text:
  "filterToSQL idc (FRegex field val) =
     (if CHR ''i'' \<in> set (flags val)
      then ''UPPER('' @ [DQ] @ idc field @ [DQ] @ '') LIKE UPPER(?)''
      else [DQ] @ idc field @ [DQ] @ '' LIKE ?'',
      [Str (let rStr = stripEscapes (source val) in
            if rStr \<noteq> [] \<and> hd rStr = CHR ''^'' then likeEscape (tl rStr) @ ''%''
            else if rStr \<noteq> [] \<and> last rStr = CHR ''$'' then ''%'' @ likeEscape (butlast rStr)
            else ''%'' @ likeEscape rStr @ ''%'')])"
proof -
  have "likePattern rStr =
          (if rStr \<noteq> [] \<and> hd rStr = CHR ''^'' then likeEscape (tl rStr) @ ''%''
           else if rStr \<noteq> [] \<and> last rStr = CHR ''$'' then ''%'' @ likeEscape (butlast rStr)
           else ''%'' @ likeEscape rStr @ ''%'')" for rStr
    by (cases rStr) (simp_all add: likePattern_def likeEscape_def del: butlast.simps last.simps)
  then show ?thesis
    using regex_values [of idc field val] regex_query [of idc field val]
    by (simp add: prod_eq_iff Let_def del: filterToSQL.simps)
qed

lemma regex_pattern_text_examples:
  "filterToSQL toSnakeCase (FRegex ''name'' (RegExp ''^abc'' ''i'')) =
     (''UPPER('' @ [DQ] @ ''name'' @ [DQ] @ '') LIKE UPPER(?)'', [Str ''abc%'']) \<and>
   filterToSQL toSnakeCase (FRegex ''name'' (RegExp ''xyz$'' '''')) =
     ([DQ] @ ''name'' @ [DQ] @ '' LIKE ?'', [Str ''%xyz'']) \<and>
   filterToSQL toSnakeCase (FRegex ''name'' (RegExp ''mid'' '''')) =
     ([DQ] @ ''name'' @ [DQ] @ '' LIKE ?'', [Str ''%mid%'']) \<and>
   filterToSQL toSnakeCase (FRegex ''name'' (RegExp ''5%_x'' '''')) =
     ([DQ] @ ''name'' @ [DQ] @ '' LIKE ?'', [Str (''%5'' @ [BSL] @ ''%'' @ [BSL] @ ''_x%'')])"
  using regex_pattern_text [of toSnakeCase "''name''" "RegExp ''^abc'' ''i''"]
    regex_pattern_text [of toSnakeCase "''name''" "RegExp ''xyz$'' ''''"]
    regex_pattern_text [of toSnakeCase "''name''" "RegExp ''mid'' ''''"]
    regex_pattern_text [of toSnakeCase "''name''" "RegExp ''5%_x'' ''''"]
  by (simp add: toSnakeCase_def char_tables likeEscape_def BSL_def del: filterToSQL.simps)

text \<open>
  As long as the text holds no backslash, the escaped text is read back as the text
  itself, character by character: no \<open>%\<close> or \<open>_\<close> of it acts as a wildcard.
\<close>

lemma likeTokens_likeEscape:
  "BSL \<notin> set s \<Longrightarrow> likeTokens t = Some ts \<Longrightarrow>
     likeTokens (likeEscape s @ t) = Some (map Lit s @ ts)"
proof (induction s)
  case Nil
  then show ?case by (simp add: likeEscape_def)
next
  case (Cons c s)
  then have ih: "likeTokens (likeEscape s @ t) = Some (map Lit s @ ts)" and c: "c \<noteq> BSL"
    by auto
  have e: "likeEscape (c # s) =
             (if c = CHR ''%'' \<or> c = CHR ''_'' then [BSL, c] else [c]) @ likeEscape s"
    by (simp add: likeEscape_def)
  show ?case
  proof (cases "c = CHR ''%'' \<or> c = CHR ''_''")
    case True
    with ih show ?thesis by (simp add: e)
  next
    case False
    have "likeTokens (c # (likeEscape s @ t)) = Some (Lit c # map Lit s @ ts)"
      using ih c False by (cases "likeEscape s @ t") simp_all
    with False show ?thesis by (simp add: e)
  qed
qed

lemma substring_pattern_literal:
  "BSL \<notin> set s \<Longrightarrow> likeTokens (''%'' @ likeEscape s @ ''%'') = Some (AnyStr # map Lit s @ [AnyStr])"
proof -
  assume b: "BSL \<notin> set s"
  have t: "likeTokens ''%'' = Some [AnyStr]" by (simp add: BSL_def)
  from likeTokens_likeEscape [OF b t] show ?thesis
    by (cases "likeEscape s @ ''%''") (simp_all add: BSL_def)
qed

text \<open>
  Claim C4. For a \<open>Regex\<close> node the bound pattern is built from the unescaped
  pattern source by prefix, suffix or substring anchoring, with every \<open>%\<close> and
  \<open>_\<close> backslash-escaped so that they match literally. The text of the pattern is
  built as stated, but a backslash of the text is not escaped itself. For the
  regular expression whose source is two backslashes and a percent sign (a
  backslash followed by a percent sign), the unescaped text is a backslash and a
  percent sign, and the bound pattern is \<open>%\<close>, two backslashes, \<open>%%\<close>: the database
  reads an escaped backslash and then a wildcard, so the pattern matches a value
  that is a single backslash, which holds no percent sign.
\<close>

theorem like_wildcard_after_backslash:
  "reverseRegexp (RegExp [BSL, BSL, CHR ''%''] []) = [BSL, CHR ''%''] \<and>
   replaceLikeWildcards [BSL, CHR ''%''] = [BSL, BSL, CHR ''%''] \<and>
   filterToSQL toSnakeCase (FRegex ''name'' (RegExp [BSL, BSL, CHR ''%''] [])) =
     ([DQ] @ ''name'' @ [DQ] @ '' LIKE ?'', [Str (''%'' @ [BSL, BSL] @ ''%%'')]) \<and>
   likeTokens (''%'' @ [BSL, BSL] @ ''%%'') = Some [AnyStr, Lit BSL, AnyStr, AnyStr] \<and>
   likeMatch [AnyStr, Lit BSL, AnyStr, AnyStr] [BSL] \<and>
   CHR ''%'' \<notin> set [BSL]"
proof -
  have t: "toSnakeCase ''name'' = ''name''" by code_simp
  have r: "reverseRegexp (RegExp [BSL, BSL, CHR ''%''] []) = [BSL, CHR ''%'']"
    by (simp add: reverseRegexp_def BSL_def)
  have w: "replaceLikeWildcards [BSL, CHR ''%''] = [BSL, BSL, CHR ''%'']"
    by (simp add: replaceLikeWildcards_def BSL_def)
  have f: "filterToSQL toSnakeCase (FRegex ''name'' (RegExp [BSL, BSL, CHR ''%''] [])) =
     ([DQ] @ ''name'' @ [DQ] @ '' LIKE ?'', [Str (''%'' @ [BSL, BSL] @ ''%%'')])"
    by (simp add: reverseRegexp_def replaceLikeWildcards_def t startsWith_def endsWith_def
        Let_def BSL_def)
  have k: "likeTokens (''%'' @ [BSL, BSL] @ ''%%'') = Some [AnyStr, Lit BSL, AnyStr, AnyStr]"
    by (simp add: BSL_def)
  have m: "likeMatch [AnyStr, Lit BSL, AnyStr, AnyStr] [BSL]" by simp
  have n: "CHR ''%'' \<notin> set [BSL]" by (simp add: BSL_def)
  from r w f k m n show ?thesis by simp
qed

subsection \<open>Positional placeholders\<close>

lemma showNat_no_qmark: "CHR ''?'' \<notin> set (showNat n)"
proof (induction n rule: showNat.induct)
  case (1 n)
  have d: "CHR ''?'' \<noteq> digitChar k" for k
  proof -
    have "digitChar k \<in> set digitChars"
      unfolding digitChar_def by (rule nth_mem) (simp add: digitChars_def)
    then show ?thesis by (auto simp: digitChars_def)
  qed
  show ?case
  proof (cases "n < 10")
    case True
    then show ?thesis using d by (simp add: showNat.simps [of n])
  next
    case False
    then show ?thesis using d 1 by (simp add: showNat.simps [of n])
  qed
qed

lemma renumber_no_qmark: "CHR ''?'' \<notin> set m \<Longrightarrow> renumber k (m @ cs) = m @ renumber k cs"
  by (induction m) auto

lemma renumber_id: "CHR ''?'' \<notin> set q \<Longrightarrow> renumber k q = q"
  by (induction q) auto

lemma renumber_replaceFirst:
  "CHR ''?'' \<in> set q \<Longrightarrow>
     renumber (i + 1) (replaceFirst (CHR ''?'') (CHR ''$'' # showNat i) q) = renumber i q"
proof (induction q)
  case Nil
  then show ?case by simp
next
  case (Cons c cs)
  show ?case
  proof (cases "c = CHR ''?''")
    case True
    have "CHR ''?'' \<notin> set (CHR ''$'' # showNat i)" using showNat_no_qmark [of i] by simp
    from renumber_no_qmark [OF this, of "i + 1" cs] True show ?thesis by simp
  next
    case False
    with Cons show ?thesis by simp
  qed
qed

lemma toPostgresTemplate_loop_renumber: "toPostgresTemplate_loop q i = renumber i q"
proof (induction q i rule: toPostgresTemplate_loop.induct)
  case (1 q i)
  show ?case
  proof (cases "CHR ''?'' \<in> set q")
    case True
    with 1 renumber_replaceFirst [OF True, of i] show ?thesis
      by (simp add: toPostgresTemplate_loop.simps [of q i])
  next
    case False
    then show ?thesis by (simp add: toPostgresTemplate_loop.simps [of q i] renumber_id)
  qed
qed


lemma toPostgresTemplate_renumber: "toPostgresTemplate q = renumber 1 q"
  by (simp add: toPostgresTemplate_def toPostgresTemplate_loop_renumber)

text \<open>
  Claim C5. \<open>toPostgresTemplate\<close> replaces the \<open>k\<close>-th \<open>?\<close> of a template, in
  left-to-right order, by \<open>$k\<close> (counting from 1): its repeated replacement of the
  first \<open>?\<close> equals one pass over the whole statement. The builders for select,
  count, delete-many, sum, insert, update and update-many all hand the pool the
  statement they assembled after this one rewrite.
\<close>

theorem placeholders_renumbered:
  "toPostgresTemplate q = renumber 1 q \<and>
   fst (generateSelectSentence this table flt sortBy sortDir skip limit projection) =
     renumber 1 (fst (selectSentence this table flt sortBy sortDir skip limit projection)) \<and>
   fst (count_statement this table flt) = renumber 1 (fst (countSentence this table flt)) \<and>
   fst (deleteMany_statement this table flt) = renumber 1 (fst (deleteManySentence this table flt)) \<and>
   fst (sum_statement this table flt field) = renumber 1 (fst (sumSentence this table flt field)) \<and>
   hd (fst (insert_row this stringify pool table row key callback)) =
     Query (renumber 1 (fst (insertSentence this stringify table row key)))
           (fst (snd (insertSentence this stringify table row key))) \<and>
   (updated \<noteq> [] \<longrightarrow>
      fst (update this stringify pool table keyName keyValue updated) =
        [Query (renumber 1 (fst (updateSentence this stringify table keyName keyValue updated)))
               (snd (updateSentence this stringify table keyName keyValue updated))] \<and>
      fst (updateMany this stringify pool table flt updated) =
        [Query (renumber 1 (fst (updateManySentence this stringify table flt updated)))
               (snd (updateManySentence this stringify table flt updated))])"
proof -
  have ins: "hd (fst (insert_row this stringify pool table row key callback)) =
     Query (renumber 1 (fst (insertSentence this stringify table row key)))
           (fst (snd (insertSentence this stringify table row key)))"
    by (simp add: insert_row_def toPostgresTemplate_renumber Let_def
        split: prod.splits sum.splits option.splits list.splits)
  have upd: "fst (update this stringify pool table keyName keyValue updated) =
        [Query (renumber 1 (fst (updateSentence this stringify table keyName keyValue updated)))
               (snd (updateSentence this stringify table keyName keyValue updated))]"
    if "updated \<noteq> []"
    using that by (simp add: update_def toPostgresTemplate_renumber Let_def split: prod.splits)
  have updm: "fst (updateMany this stringify pool table flt updated) =
        [Query (renumber 1 (fst (updateManySentence this stringify table flt updated)))
               (snd (updateManySentence this stringify table flt updated))]"
    if "updated \<noteq> []"
    using that by (simp add: updateMany_def toPostgresTemplate_renumber Let_def split: prod.splits)
  have sel: "fst (generateSelectSentence this table flt sortBy sortDir skip limit projection) =
     renumber 1 (fst (selectSentence this table flt sortBy sortDir skip limit projection))"
    by (simp add: generateSelectSentence_def toPostgresTemplate_renumber split: prod.splits)
  have cnt: "fst (count_statement this table flt) = renumber 1 (fst (countSentence this table flt))"
    by (simp add: count_statement_def toPostgresTemplate_renumber split: prod.splits)
  have del: "fst (deleteMany_statement this table flt) = renumber 1 (fst (deleteManySentence this table flt))"
    by (simp add: deleteMany_statement_def toPostgresTemplate_renumber split: prod.splits)
  have sm: "fst (sum_statement this table flt field) = renumber 1 (fst (sumSentence this table flt field))"
    by (simp add: sum_statement_def toPostgresTemplate_renumber split: prod.splits)
  from ins upd updm sel cnt del sm toPostgresTemplate_renumber [of q] show ?thesis by blast
qed

theorem placeholders_renumbered_witness:
  "toPostgresTemplate ''a = ? AND b = ? AND c = ?'' = ''a = $1 AND b = $2 AND c = $3'' \<and>
   fst (updateMany (idConversionOf defaultConfiguration) (\<lambda>v. []) (\<lambda>s vs. Inr (QueryResult (Some []) 1))
          ''person'' (FGt ''age'' (Num 5)) [(''firstName'', Str ''x'')]) =
     [Query (''UPDATE '' @ [DQ] @ ''person'' @ [DQ] @ '' SET '' @ [DQ] @ ''first_name'' @ [DQ]
               @ '' = $1 WHERE '' @ [DQ] @ ''age'' @ [DQ] @ '' > $2'')
            [Str ''x'', Num 5]]"
  using placeholders_renumbered [of "''a = ? AND b = ? AND c = ?''" "idConversionOf defaultConfiguration"
      "''person''" "FGt ''age'' (Num 5)" None None None None None "''x''" "\<lambda>v. []"
      "\<lambda>s vs. Inr (QueryResult (Some []) 1)" "[]" None False "[(''firstName'', Str ''x'')]" "''id''" Null]
  by (simp add: show_simps updateManySentence_def appendWhere_def idConversionOf_def
      defaultConfiguration_def toSnakeCase_def char_tables getProp_def DQ_def)


subsection \<open>Identifier conversion\<close>

lemma upper_all:
  "list_all (\<lambda>c. toLowerCase c \<noteq> c \<and> toUpperCase (toLowerCase c) = c \<and> toLowerCase c \<noteq> CHR ''_'' \<and> c \<noteq> CHR ''_'') upperChars"
  by code_simp

lemma upper_facts:
  "isUpperLetter c \<Longrightarrow> toLowerCase c \<noteq> c \<and> toUpperCase (toLowerCase c) = c \<and> toLowerCase c \<noteq> CHR ''_'' \<and> c \<noteq> CHR ''_''"
  using upper_all unfolding isUpperLetter_def list_all_iff by blast

lemma lower_all:
  "list_all (\<lambda>c. toLowerCase c = c \<and> c \<noteq> CHR ''_'' \<and> toUpperCase c \<noteq> CHR ''_'' \<and>
     toLowerCase (toUpperCase c) = c \<and> toLowerCase (toUpperCase c) \<noteq> toUpperCase c) lowerChars"
  by code_simp

lemma lower_facts:
  "isLowerLetter c \<Longrightarrow> toLowerCase c = c \<and> c \<noteq> CHR ''_'' \<and> toUpperCase c \<noteq> CHR ''_'' \<and>
     toLowerCase (toUpperCase c) = c \<and> toLowerCase (toUpperCase c) \<noteq> toUpperCase c"
  using lower_all unfolding isLowerLetter_def list_all_iff by blast

lemma digit_all:
  "list_all (\<lambda>c. toLowerCase c = c \<and> c \<noteq> CHR ''_'') digitChars"
  by code_simp

lemma digit_facts:
  "isDigit c \<Longrightarrow> toLowerCase c = c \<and> c \<noteq> CHR ''_''"
  using digit_all unfolding isDigit_def list_all_iff by blast


lemma toSnakeCase_loop_concat:
  "toSnakeCase_loop cs res =
     res @ concat (map (\<lambda>c. if toLowerCase c \<noteq> c then [CHR ''_'', toLowerCase c] else [c]) cs)"
  by (induction cs arbitrary: res) simp_all

lemma toSnakeCase_concat:
  "toSnakeCase s = concat (map (\<lambda>c. if toLowerCase c \<noteq> c then [CHR ''_'', toLowerCase c] else [c]) s)"
  by (simp add: toSnakeCase_def toSnakeCase_loop_concat)

lemma toSnakeCase_append: "toSnakeCase (a @ b) = toSnakeCase a @ toSnakeCase b"
  by (simp add: toSnakeCase_concat)

lemma toSnakeCase_Cons:
  "toSnakeCase (c # s) = (if toLowerCase c \<noteq> c then [CHR ''_'', toLowerCase c] else [c]) @ toSnakeCase s"
  by (simp add: toSnakeCase_concat)

lemma toCamelCase_loop_acc:
  "toCamelCase_loop cs (res, b) = res @ toCamelCase_loop cs ([], b)"
proof (induction cs arbitrary: res b)
  case Nil
  show ?case by simp
next
  case (Cons c cs)
  show ?case
    using Cons [of "res @ [toUpperCase c]" False] Cons [of "res @ [toLowerCase c]" False]
      Cons [of "[toUpperCase c]" False] Cons [of "[toLowerCase c]" False] Cons [of res True]
    by simp
qed

lemma camel_underscore:
  "toCamelCase_loop (CHR ''_'' # cs) ([], b) = toCamelCase_loop cs ([], True)"
  by simp

lemma camel_upper:
  "c \<noteq> CHR ''_'' \<Longrightarrow>
     toCamelCase_loop (c # cs) ([], True) = toUpperCase c # toCamelCase_loop cs ([], False)"
  using toCamelCase_loop_acc [of cs "[toUpperCase c]" False] by simp

lemma camel_lower:
  "c \<noteq> CHR ''_'' \<Longrightarrow>
     toCamelCase_loop (c # cs) ([], False) = toLowerCase c # toCamelCase_loop cs ([], False)"
  using toCamelCase_loop_acc [of cs "[toLowerCase c]" False] by simp

lemma camel_of_snake:
  "applicationConvention x \<Longrightarrow> toCamelCase_loop (toSnakeCase x) ([], False) = x"
proof (induction x)
  case Nil
  show ?case by (simp add: toSnakeCase_concat)
next
  case (Cons c x)
  then have ih: "toCamelCase_loop (toSnakeCase x) ([], False) = x"
    and c: "isUpperLetter c \<or> isLowerLetter c \<or> isDigit c"
    by (simp_all add: applicationConvention_def)
  show ?case
  proof (cases "isUpperLetter c")
    case True
    from upper_facts [OF True] ih show ?thesis
      by (simp add: toSnakeCase_Cons camel_upper camel_underscore del: toCamelCase_loop.simps)
  next
    case False
    with c lower_facts [of c] digit_facts [of c]
    have "toLowerCase c = c" "c \<noteq> CHR ''_''" by auto
    with ih show ?thesis
      by (simp add: toSnakeCase_Cons camel_lower del: toCamelCase_loop.simps)
  qed
qed

lemma lowword_facts:
  "list_all (\<lambda>c. isLowerLetter c \<or> isDigit c) w \<Longrightarrow>
     toCamelCase_loop (w @ t) ([], False) = w @ toCamelCase_loop t ([], False) \<and> toSnakeCase w = w"
proof (induction w)
  case Nil
  show ?case by (simp add: toSnakeCase_concat)
next
  case (Cons c w)
  then have ih: "toCamelCase_loop (w @ t) ([], False) = w @ toCamelCase_loop t ([], False)"
    "toSnakeCase w = w" and c: "isLowerLetter c \<or> isDigit c"
    by simp_all
  from c lower_facts [of c] digit_facts [of c]
  have "toLowerCase c = c" "c \<noteq> CHR ''_''" by auto
  with ih show ?case
    by (simp add: toSnakeCase_Cons camel_lower del: toCamelCase_loop.simps)
qed

lemma join_underscore:
  "join ''_'' (w # ws) = w @ concat (map (\<lambda>v. CHR ''_'' # v) ws)"
  by (induction ws arbitrary: w) simp_all

lemma later_words:
  "list_all storageWord ws \<Longrightarrow> list_all letterFirst ws \<Longrightarrow>
     toSnakeCase (toCamelCase_loop (concat (map (\<lambda>v. CHR ''_'' # v) ws)) ([], False)) =
       concat (map (\<lambda>v. CHR ''_'' # v) ws)"
proof (induction ws)
  case Nil
  show ?case by (simp add: toSnakeCase_concat)
next
  case (Cons w ws)
  then have ih: "toSnakeCase (toCamelCase_loop (concat (map (\<lambda>v. CHR ''_'' # v) ws)) ([], False)) =
       concat (map (\<lambda>v. CHR ''_'' # v) ws)"
    and sw: "storageWord w" and lf: "letterFirst w"
    by simp_all
  from lf obtain c w' where w: "w = c # w'" and c: "isLowerLetter c"
    by (auto simp: letterFirst_def split: list.splits)
  from sw w have w': "list_all (\<lambda>c. isLowerLetter c \<or> isDigit c) w'"
    by (simp add: storageWord_def)
  let ?rest = "concat (map (\<lambda>v. CHR ''_'' # v) ws)"
  have "toCamelCase_loop (CHR ''_'' # w @ ?rest) ([], False) =
          toUpperCase c # w' @ toCamelCase_loop ?rest ([], False)"
    using lower_facts [OF c] lowword_facts [OF w', of ?rest]
    by (simp add: w camel_upper camel_underscore del: toCamelCase_loop.simps)
  moreover from lower_facts [OF c]
  have "toLowerCase (toUpperCase c) = c" "c \<noteq> toUpperCase c" by auto
  ultimately show ?case
    using lowword_facts [OF w', of ?rest] ih
    by (simp add: w toSnakeCase_Cons toSnakeCase_append del: toCamelCase_loop.simps)
qed

lemma snake_of_camel:
  assumes "storageWords ws" and "list_all letterFirst (tl ws)"
  shows "toSnakeCase (toCamelCase (joinWords ws)) = joinWords ws"
proof -
  from assms(1) obtain w ws' where ws: "ws = w # ws'"
    by (cases ws) (simp_all add: storageWords_def)
  with assms have w: "list_all (\<lambda>c. isLowerLetter c \<or> isDigit c) w"
    and rest: "list_all storageWord ws'" "list_all letterFirst ws'"
    by (simp_all add: storageWords_def storageWord_def)
  show ?thesis
    using lowword_facts [OF w, of "concat (map (\<lambda>v. CHR ''_'' # v) ws')"] later_words [OF rest]
    by (simp add: ws joinWords_def join_underscore toCamelCase_def toSnakeCase_append)
qed

text \<open>
  Claim C3, as amended. For every identifier \<open>x\<close> of ASCII letters and digits
  (application convention), \<open>toCamelCase (toSnakeCase x) = x\<close>. For every
  identifier made of non-empty words of lower-case letters and digits joined by
  single underscores (storage convention) in which every word after the first
  starts with a letter, \<open>toSnakeCase (toCamelCase y) = y\<close>.
\<close>

theorem case_round_trips:
  "(applicationConvention x \<longrightarrow> toCamelCase (toSnakeCase x) = x) \<and>
   (storageWords ws \<and> list_all letterFirst (tl ws) \<longrightarrow>
      toSnakeCase (toCamelCase (joinWords ws)) = joinWords ws)"
  using camel_of_snake [of x] snake_of_camel [of ws] by (simp add: toCamelCase_def)

theorem case_round_trips_witness:
  "applicationConvention ''hasDriverLicense'' \<and>
   toSnakeCase ''hasDriverLicense'' = ''has_driver_license'' \<and>
   toCamelCase (toSnakeCase ''hasDriverLicense'') = ''hasDriverLicense'' \<and>
   storageWords [''has'', ''driver'', ''license''] \<and>
   list_all letterFirst (tl [''has'', ''driver'', ''license'']) \<and>
   joinWords [''has'', ''driver'', ''license''] = ''has_driver_license'' \<and>
   toSnakeCase (toCamelCase (joinWords [''has'', ''driver'', ''license''])) =
     joinWords [''has'', ''driver'', ''license'']"
proof -
  have a: "applicationConvention ''hasDriverLicense''" by code_simp
  have b: "storageWords [''has'', ''driver'', ''license''] \<and>
           list_all letterFirst (tl [''has'', ''driver'', ''license''])" by code_simp
  have c: "toSnakeCase ''hasDriverLicense'' = ''has_driver_license''" by code_simp
  have d: "joinWords [''has'', ''driver'', ''license''] = ''has_driver_license''" by code_simp
  from a b c d case_round_trips [of "''hasDriverLicense''" "[''has'', ''driver'', ''license'']"]
  show ?thesis by blast
qed

text \<open>
  Without the condition on the first character of the later words the second
  round trip fails: a digit has no upper-case form, so the underscore before it is
  lost.
\<close>

theorem storage_round_trip_counterexample:
  "storageWords [''value'', ''1''] \<and>
   joinWords [''value'', ''1''] = ''value_1'' \<and>
   toCamelCase ''value_1'' = ''value1'' \<and>
   toSnakeCase (toCamelCase ''value_1'') = ''value1'' \<and>
   toSnakeCase (toCamelCase (joinWords [''value'', ''1''])) \<noteq> joinWords [''value'', ''1'']"
  by code_simp


subsection \<open>findByKey\<close>

lemma map_of_setProp: "map_of (setProp r k v) = (map_of r)(k \<mapsto> v)"
  by (induction r) (auto simp: fun_eq_iff)

lemma keys_setProp: "fst ` set (setProp r k v) = insert k (fst ` set r)"
proof -
  have "fst ` set (setProp r k v) = dom (map_of (setProp r k v))"
    by (simp only: dom_map_of_conv_image_fst)
  also have "\<dots> = insert k (dom (map_of r))"
    by (simp add: map_of_setProp)
  finally show ?thesis by (simp only: dom_map_of_conv_image_fst)
qed

lemma setProp_new: "k \<notin> set (map fst r) \<Longrightarrow> setProp r k v = r @ [(k, v)]"
  by (induction r) auto

lemma normalizeRow_loop_map_of:
  "map_of (normalizeRow_loop kvs r) =
     map_of (rev (map (\<lambda>(k, v). (toCamelCase k, v)) kvs) @ r)"
proof (induction kvs arbitrary: r)
  case Nil
  show ?case by simp
next
  case (Cons kv kvs)
  obtain k v where kv: "kv = (k, v)" by (cases kv)
  show ?case
    using Cons [of "setProp r (toCamelCase k) v"]
    by (simp add: kv map_of_setProp map_add_def fun_eq_iff split: option.splits)
qed

lemma normalizeRow_loop_keys:
  "set (map fst (normalizeRow_loop kvs r)) = toCamelCase ` set (map fst kvs) \<union> set (map fst r)"
proof (induction kvs arbitrary: r)
  case Nil
  show ?case by simp
next
  case (Cons kv kvs)
  obtain k v where kv: "kv = (k, v)" by (cases kv)
  show ?case
    using Cons [of "setProp r (toCamelCase k) v"] by (simp add: kv keys_setProp Un_commute insert_commute)
qed

lemma normalizeRow_loop_distinct:
  "distinct (map (\<lambda>kv. toCamelCase (fst kv)) kvs) \<Longrightarrow>
   toCamelCase ` set (map fst kvs) \<inter> set (map fst r) = {} \<Longrightarrow>
     normalizeRow_loop kvs r = r @ map (\<lambda>(k, v). (toCamelCase k, v)) kvs"
proof (induction kvs arbitrary: r)
  case Nil
  show ?case by simp
next
  case (Cons kv kvs)
  obtain k v where kv: "kv = (k, v)" by (cases kv)
  from Cons.prems have new: "toCamelCase k \<notin> set (map fst r)" by (auto simp: kv)
  from Cons.prems have d: "distinct (map (\<lambda>kv. toCamelCase (fst kv)) kvs)"
    and n: "toCamelCase k \<notin> toCamelCase ` set (map fst kvs)"
    and disj: "toCamelCase ` set (map fst kvs) \<inter> set (map fst r) = {}"
    by (auto simp: kv)
  have "toCamelCase ` set (map fst kvs) \<inter> set (map fst (r @ [(toCamelCase k, v)])) = {}"
    using n disj by auto
  from Cons.IH [OF d this] show ?case
    by (simp add: kv setProp_new [OF new])
qed

lemma normalizeSQLResults_loop_map:
  "normalizeSQLResults_loop rs acc = acc @ map (\<lambda>r. normalizeRow_loop r []) rs"
  by (induction rs arbitrary: acc) simp_all

lemma normalizeSQLResults_map:
  "normalizeSQLResults rs = map (\<lambda>r. normalizeRow_loop r []) rs"
  by (simp add: normalizeSQLResults_def normalizeSQLResults_loop_map)

text \<open>
  Claim C10. When the query \<open>findByKey\<close> issues succeeds with zero rows, the
  promise resolves to \<^verbatim>\<open>null\<close>. When it succeeds with one or more rows, the
  promise resolves to the first row as the configured conversion returns it; under
  the default conversion that is the first row with every key replaced by its
  \<open>toCamelCase\<close> form: the keys are exactly the converted keys, each holds the
  value of the last column converted to it, and when no two columns convert to
  the same key the row is the original one with each key converted, in order.
\<close>

theorem findByKey_rows:
  assumes "pool (''SELECT * FROM '' @ [DQ] @ table @ [DQ] @ '' WHERE '' @ [DQ] @ toSQL this keyName
                   @ [DQ] @ '' = $1'') [keyValue] = Inr (QueryResult (Some rs) n)"
  shows "(rs = [] \<longrightarrow> snd (findByKey this pool table keyName keyValue) = Resolved Null) \<and>
         (rs \<noteq> [] \<longrightarrow>
            snd (findByKey this pool table keyName keyValue) = Resolved (firstRow (parseResults this rs))) \<and>
         (rs \<noteq> [] \<and> parseResults this = normalizeSQLResults \<longrightarrow>
            firstRow (parseResults this rs) = Obj (normalizeRow_loop (hd rs) []) \<and>
            set (map fst (normalizeRow_loop (hd rs) [])) = toCamelCase ` set (map fst (hd rs)) \<and>
            map_of (normalizeRow_loop (hd rs) []) =
              map_of (rev (map (\<lambda>(k, v). (toCamelCase k, v)) (hd rs))) \<and>
            (distinct (map (\<lambda>kv. toCamelCase (fst kv)) (hd rs)) \<longrightarrow>
               normalizeRow_loop (hd rs) [] = map (\<lambda>(k, v). (toCamelCase k, v)) (hd rs)))"
proof -
  have a: "rs = [] \<longrightarrow> snd (findByKey this pool table keyName keyValue) = Resolved Null"
    using assms by (simp add: findByKey_def Let_def)
  have b: "rs \<noteq> [] \<longrightarrow>
            snd (findByKey this pool table keyName keyValue) = Resolved (firstRow (parseResults this rs))"
    using assms by (simp add: findByKey_def Let_def)
  have c: "firstRow (normalizeSQLResults rs) = Obj (normalizeRow_loop (hd rs) [])" if "rs \<noteq> []"
    using that by (cases rs) (simp_all add: normalizeSQLResults_map firstRow_def)
  have d: "normalizeRow_loop (hd rs) [] = map (\<lambda>(k, v). (toCamelCase k, v)) (hd rs)"
    if "distinct (map (\<lambda>kv. toCamelCase (fst kv)) (hd rs))"
    using normalizeRow_loop_distinct [OF that, of "[]"] by simp
  from a b c d normalizeRow_loop_keys [of "hd rs" "[]"] normalizeRow_loop_map_of [of "hd rs" "[]"]
  show ?thesis by simp
qed

theorem findByKey_rows_witness:
  "snd (findByKey (idConversionOf defaultConfiguration) (\<lambda>s vs. Inr (QueryResult (Some []) 0))
          ''person'' ''id'' (Num 7)) = Resolved Null \<and>
   snd (findByKey (idConversionOf defaultConfiguration)
          (\<lambda>s vs. Inr (QueryResult (Some [[(''first_name'', Str ''Ann''), (''id'', Num 1)],
                                           [(''first_name'', Str ''Bob''), (''id'', Num 1)]]) 2))
          ''person'' ''id'' (Num 1)) =
     Resolved (Obj [(''firstName'', Str ''Ann''), (''id'', Num 1)])"
proof -
  have c: "toCamelCase ''first_name'' = ''firstName''" "toCamelCase ''id'' = ''id''"
    by code_simp+
  have p: "parseResults (idConversionOf defaultConfiguration) = normalizeSQLResults"
    by (simp add: idConversionOf_def defaultConfiguration_def)
  show ?thesis
    using findByKey_rows [of "\<lambda>s vs. Inr (QueryResult (Some []) 0)" "''person''"
        "idConversionOf defaultConfiguration" "''id''" "Num 7" "[]" 0]
      findByKey_rows [of "\<lambda>s vs. Inr (QueryResult (Some [[(''first_name'', Str ''Ann''), (''id'', Num 1)],
                                           [(''first_name'', Str ''Bob''), (''id'', Num 1)]]) 2)" "''person''"
        "idConversionOf defaultConfiguration" "''id''" "Num 1"
        "[[(''first_name'', Str ''Ann''), (''id'', Num 1)],
          [(''first_name'', Str ''Bob''), (''id'', Num 1)]]" 2]
    by (simp add: c p)
qed


subsection \<open>insert\<close>

lemma insert_loop_columns:
  "insert_loop this stringify row key ks (sqlKeys, values, qm) =
     (sqlKeys @ map (\<lambda>k. [DQ] @ toSQL this k @ [DQ])
                  (filter (\<lambda>k. \<not> (key = Some k \<and> isNullish (getProp row k))) ks),
      values @ map (\<lambda>k. toSQLCompatibleValue stringify (getProp row k))
                 (filter (\<lambda>k. \<not> (key = Some k \<and> isNullish (getProp row k))) ks),
      qm @ map (\<lambda>k. ''?'') (filter (\<lambda>k. \<not> (key = Some k \<and> isNullish (getProp row k))) ks))"
proof (induction ks arbitrary: sqlKeys "values" qm)
  case Nil
  show ?case by simp
next
  case (Cons k ks)
  show ?case
  proof (cases "key = Some k \<and> isNullish (getProp row k)")
    case True
    then have c: "key = Some k \<and> (getProp row k = Null \<or> getProp row k = Undefined)"
      by (simp add: isNullish_def)
    have "insert_loop this stringify row key (k # ks) (sqlKeys, values, qm) =
                 insert_loop this stringify row key ks (sqlKeys, values, qm)"
      by (simp only: insert_loop.simps if_P [OF c])
    with True Cons [of sqlKeys "values" qm] show ?thesis by simp
  next
    case False
    then have c: "\<not> (key = Some k \<and> (getProp row k = Null \<or> getProp row k = Undefined))"
      by (simp add: isNullish_def)
    have "insert_loop this stringify row key (k # ks) (sqlKeys, values, qm) =
                 insert_loop this stringify row key ks
                   (sqlKeys @ [[DQ] @ toSQL this k @ [DQ]],
                    values @ [toSQLCompatibleValue stringify (getProp row k)],
                    qm @ [''?''])"
      by (simp only: insert_loop.simps if_not_P [OF c])
    with False Cons [of "sqlKeys @ [[DQ] @ toSQL this k @ [DQ]]"
        "values @ [toSQLCompatibleValue stringify (getProp row k)]" "qm @ [''?'']"]
    show ?thesis by simp
  qed
qed

lemma insertSentence_columns:
  "insertSentence this stringify table row key =
     (''INSERT INTO '' @ [DQ] @ table @ [DQ] @ ''(''
        @ join '','' (map (\<lambda>k. [DQ] @ toSQL this k @ [DQ]) (insertColumns row key))
        @ '') VALUES ('' @ join '','' (map (\<lambda>k. ''?'') (insertColumns row key)) @ '')''
        @ (case autoKey row key of
             Some k \<Rightarrow> '' RETURNING '' @ [DQ] @ toSQL this k @ [DQ]
           | None \<Rightarrow> []),
      map (\<lambda>k. toSQLCompatibleValue stringify (getProp row k)) (insertColumns row key),
      autoKey row key)"
  by (simp add: insertSentence_def insert_loop_columns insertColumns_def autoKey_def isNullish_def
      split: option.splits)



text \<open>
  Claim C8, as amended. The column list of an insert holds every field of the row,
  in order, except the primary key when the row gives it no value (null or
  absent); fields whose value is null are listed and bound as NULL. When a
  non-empty primary key is named and the row gives it no value, the key column is
  left out, a RETURNING clause for the key is appended, and on a result with at
  least one row the callback receives that row's key value. When the row gives the
  key a value, all fields are listed, the key's value is bound like any other, and
  there is no RETURNING clause and no callback call.
\<close>

theorem insert_statement:
  "insertSentence this stringify table row key =
     (''INSERT INTO '' @ [DQ] @ table @ [DQ] @ ''(''
        @ join '','' (map (\<lambda>k. [DQ] @ toSQL this k @ [DQ]) (insertColumns row key))
        @ '') VALUES ('' @ join '','' (map (\<lambda>k. ''?'') (insertColumns row key)) @ '')''
        @ (case autoKey row key of
             Some k \<Rightarrow> '' RETURNING '' @ [DQ] @ toSQL this k @ [DQ]
           | None \<Rightarrow> []),
      map (\<lambda>k. toSQLCompatibleValue stringify (getProp row k)) (insertColumns row key),
      autoKey row key) \<and>
   (key = Some k \<and> k \<noteq> [] \<and> isNullish (getProp row k) \<longrightarrow>
      autoKey row key = Some k \<and> insertColumns row key = filter (\<lambda>f. f \<noteq> k) (map fst row)) \<and>
   (key = Some k \<and> \<not> isNullish (getProp row k) \<longrightarrow>
      autoKey row key = None \<and> insertColumns row key = map fst row) \<and>
   (pool (toPostgresTemplate (fst (insertSentence this stringify table row key)))
         (fst (snd (insertSentence this stringify table row key)))
      = Inr (QueryResult (Some (r # rs)) n) \<longrightarrow>
    insert_row this stringify pool table row key True =
      (Query (toPostgresTemplate (fst (insertSentence this stringify table row key)))
             (fst (snd (insertSentence this stringify table row key)))
         # (case autoKey row key of
              Some k \<Rightarrow> [Callback (getProp r (toSQL this k))]
            | None \<Rightarrow> []),
       Resolved Undefined))"
proof -
  have auto_mode: "autoKey row key = Some k \<and>
      insertColumns row key = filter (\<lambda>f. f \<noteq> k) (map fst row)"
    if "key = Some k \<and> k \<noteq> [] \<and> isNullish (getProp row k)"
  proof -
    have "(\<lambda>f. \<not> (Some k = Some f \<and> isNullish (getProp row f))) = (\<lambda>f. f \<noteq> k)"
      using that by auto
    with that show ?thesis by (simp add: insertColumns_def autoKey_def)
  qed
  have conc_mode: "autoKey row key = None \<and> insertColumns row key = map fst row"
    if "key = Some k \<and> \<not> isNullish (getProp row k)"
  proof -
    have "(\<lambda>f. \<not> (Some k = Some f \<and> isNullish (getProp row f))) = (\<lambda>f. True)"
      using that by auto
    with that show ?thesis by (simp add: insertColumns_def autoKey_def)
  qed
  have run: "insert_row this stringify pool table row key True =
      (Query (toPostgresTemplate (fst (insertSentence this stringify table row key)))
             (fst (snd (insertSentence this stringify table row key)))
         # (case autoKey row key of
              Some k \<Rightarrow> [Callback (getProp r (toSQL this k))]
            | None \<Rightarrow> []),
       Resolved Undefined)"
    if "pool (toPostgresTemplate (fst (insertSentence this stringify table row key)))
         (fst (snd (insertSentence this stringify table row key)))
      = Inr (QueryResult (Some (r # rs)) n)"
  proof -
    obtain s vs where sv: "insertSentence this stringify table row key = (s, vs, autoKey row key)"
      using insertSentence_columns [of this stringify table row key] by blast
    with that have "pool (toPostgresTemplate s) vs = Inr (QueryResult (Some (r # rs)) n)"
      by simp
    then show ?thesis
      by (cases "autoKey row key") (simp_all add: insert_row_def sv Let_def)
  qed
  from auto_mode have B: "key = Some k \<and> k \<noteq> [] \<and> isNullish (getProp row k) \<longrightarrow>
      autoKey row key = Some k \<and> insertColumns row key = filter (\<lambda>f. f \<noteq> k) (map fst row)"
    by (rule impI)
  from conc_mode have C: "key = Some k \<and> \<not> isNullish (getProp row k) \<longrightarrow>
      autoKey row key = None \<and> insertColumns row key = map fst row"
    by (rule impI)
  from run have D: "pool (toPostgresTemplate (fst (insertSentence this stringify table row key)))
         (fst (snd (insertSentence this stringify table row key)))
      = Inr (QueryResult (Some (r # rs)) n) \<longrightarrow>
    insert_row this stringify pool table row key True =
      (Query (toPostgresTemplate (fst (insertSentence this stringify table row key)))
             (fst (snd (insertSentence this stringify table row key)))
         # (case autoKey row key of
              Some k \<Rightarrow> [Callback (getProp r (toSQL this k))]
            | None \<Rightarrow> []),
       Resolved Undefined)"
    by (rule impI)
  show ?thesis
    by (rule conjI [OF insertSentence_columns conjI [OF B conjI [OF C D]]])
qed



theorem insert_statement_witness:
  "autoKey [(''id'', Null), (''value1'', Num 5), (''data'', Null)] (Some ''id'') = Some ''id'' \<and>
   insertColumns [(''id'', Null), (''value1'', Num 5), (''data'', Null)] (Some ''id'') =
     [''value1'', ''data''] \<and>
   insertSentence (idConversionOf defaultConfiguration) (\<lambda>v. []) ''dummy''
        [(''id'', Null), (''value1'', Num 5), (''data'', Null)] (Some ''id'') =
     (''INSERT INTO '' @ [DQ] @ ''dummy'' @ [DQ] @ ''('' @ [DQ] @ ''value1'' @ [DQ] @ '','' @ [DQ]
        @ ''data'' @ [DQ] @ '') VALUES (?,?) RETURNING '' @ [DQ] @ ''id'' @ [DQ],
      [Num 5, Null], Some ''id'') \<and>
   insert_row (idConversionOf defaultConfiguration) (\<lambda>v. [])
        (\<lambda>s vs. Inr (QueryResult (Some [[(''id'', Num 42)]]) 1)) ''dummy''
        [(''id'', Null), (''value1'', Num 5), (''data'', Null)] (Some ''id'') True =
     ([Query (''INSERT INTO '' @ [DQ] @ ''dummy'' @ [DQ] @ ''('' @ [DQ] @ ''value1'' @ [DQ] @ '','' @ [DQ]
                @ ''data'' @ [DQ] @ '') VALUES ($1,$2) RETURNING '' @ [DQ] @ ''id'' @ [DQ])
             [Num 5, Null],
       Callback (Num 42)], Resolved Undefined) \<and>
   autoKey [(''id'', Num 7), (''name'', Str ''Ann'')] (Some ''id'') = None \<and>
   insertSentence (idConversionOf defaultConfiguration) (\<lambda>v. []) ''person''
        [(''id'', Num 7), (''name'', Str ''Ann'')] (Some ''id'') =
     (''INSERT INTO '' @ [DQ] @ ''person'' @ [DQ] @ ''('' @ [DQ] @ ''id'' @ [DQ] @ '','' @ [DQ]
        @ ''name'' @ [DQ] @ '') VALUES (?,?)'',
      [Num 7, Str ''Ann''], None)"
proof -
  have t: "toSnakeCase ''id'' = ''id''" "toSnakeCase ''value1'' = ''value1''"
    "toSnakeCase ''data'' = ''data''" "toSnakeCase ''name'' = ''name''"
    by code_simp+
  have q: "toSQL (idConversionOf defaultConfiguration) = toSnakeCase"
    by (simp add: idConversionOf_def defaultConfiguration_def)
  have r: "renumber 1 (''INSERT INTO '' @ [DQ] @ ''dummy'' @ [DQ] @ ''('' @ [DQ] @ ''value1'' @ [DQ]
        @ '','' @ [DQ] @ ''data'' @ [DQ] @ '') VALUES (?,?) RETURNING '' @ [DQ] @ ''id'' @ [DQ]) =
     ''INSERT INTO '' @ [DQ] @ ''dummy'' @ [DQ] @ ''('' @ [DQ] @ ''value1'' @ [DQ] @ '','' @ [DQ]
        @ ''data'' @ [DQ] @ '') VALUES ($1,$2) RETURNING '' @ [DQ] @ ''id'' @ [DQ]"
    by (simp add: show_simps DQ_def)
  note i1 = insert_statement [of "idConversionOf defaultConfiguration" "\<lambda>v. []" "''dummy''"
      "[(''id'', Null), (''value1'', Num 5), (''data'', Null)]" "Some ''id''" "''id''"
      "\<lambda>s vs. Inr (QueryResult (Some [[(''id'', Num 42)]]) 1)" "[(''id'', Num 42)]" "[]" 1]
  note i2 = insert_statement [of "idConversionOf defaultConfiguration" "\<lambda>v. []" "''person''"
      "[(''id'', Num 7), (''name'', Str ''Ann'')]" "Some ''id''" "''id''"
      "\<lambda>s vs. Inr (QueryResult (Some [[(''id'', Num 42)]]) 1)" "[(''id'', Num 42)]" "[]" 1]
  have a1: "autoKey [(''id'', Null), (''value1'', Num 5), (''data'', Null)] (Some ''id'') = Some ''id'' \<and>
      insertColumns [(''id'', Null), (''value1'', Num 5), (''data'', Null)] (Some ''id'') =
        [''value1'', ''data'']"
    using i1 [THEN conjunct2, THEN conjunct1] by (simp add: getProp_def isNullish_def)
  have a2: "autoKey [(''id'', Num 7), (''name'', Str ''Ann'')] (Some ''id'') = None \<and>
      insertColumns [(''id'', Num 7), (''name'', Str ''Ann'')] (Some ''id'') = [''id'', ''name'']"
    using i2 [THEN conjunct2, THEN conjunct2, THEN conjunct1] by (simp add: getProp_def isNullish_def)
  have s1: "insertSentence (idConversionOf defaultConfiguration) (\<lambda>v. []) ''dummy''
        [(''id'', Null), (''value1'', Num 5), (''data'', Null)] (Some ''id'') =
     (''INSERT INTO '' @ [DQ] @ ''dummy'' @ [DQ] @ ''('' @ [DQ] @ ''value1'' @ [DQ] @ '','' @ [DQ]
        @ ''data'' @ [DQ] @ '') VALUES (?,?) RETURNING '' @ [DQ] @ ''id'' @ [DQ],
      [Num 5, Null], Some ''id'')"
    using i1 [THEN conjunct1] by (simp add: a1 q t getProp_def)
  have run1: "insert_row (idConversionOf defaultConfiguration) (\<lambda>v. [])
        (\<lambda>s vs. Inr (QueryResult (Some [[(''id'', Num 42)]]) 1)) ''dummy''
        [(''id'', Null), (''value1'', Num 5), (''data'', Null)] (Some ''id'') True =
     ([Query (''INSERT INTO '' @ [DQ] @ ''dummy'' @ [DQ] @ ''('' @ [DQ] @ ''value1'' @ [DQ] @ '','' @ [DQ]
                @ ''data'' @ [DQ] @ '') VALUES ($1,$2) RETURNING '' @ [DQ] @ ''id'' @ [DQ])
             [Num 5, Null],
       Callback (Num 42)], Resolved Undefined)"
    using i1 [THEN conjunct2, THEN conjunct2, THEN conjunct2] r
    by (simp add: s1 a1 q t toPostgresTemplate_renumber getProp_def del: renumber.simps)
  have s2: "insertSentence (idConversionOf defaultConfiguration) (\<lambda>v. []) ''person''
        [(''id'', Num 7), (''name'', Str ''Ann'')] (Some ''id'') =
     (''INSERT INTO '' @ [DQ] @ ''person'' @ [DQ] @ ''('' @ [DQ] @ ''id'' @ [DQ] @ '','' @ [DQ]
        @ ''name'' @ [DQ] @ '') VALUES (?,?)'',
      [Num 7, Str ''Ann''], None)"
    using i2 [THEN conjunct1] by (simp add: a2 q t getProp_def)
  from a1 s1 run1 a2 s2 show ?thesis by simp
qed

text \<open>
  A field other than the key is listed even when its value is null, and is bound
  as NULL.
\<close>

theorem insert_null_field_counterexample:
  "getProp [(''id'', Num 1), (''age'', Null)] ''age'' = Null \<and>
   insertSentence (idConversionOf defaultConfiguration) (\<lambda>v. []) ''person''
        [(''id'', Num 1), (''age'', Null)] (Some ''id'') =
     (''INSERT INTO '' @ [DQ] @ ''person'' @ [DQ] @ ''('' @ [DQ] @ ''id'' @ [DQ] @ '','' @ [DQ]
        @ ''age'' @ [DQ] @ '') VALUES (?,?)'',
      [Num 1, Null], None)"
proof -
  have t: "toSnakeCase ''id'' = ''id''" "toSnakeCase ''age'' = ''age''"
    by code_simp+
  show ?thesis
    by (simp add: insertSentence_def getProp_def idConversionOf_def defaultConfiguration_def t)
qed


subsection \<open>Streaming reads\<close>

text \<open>
  The loops only add read and handler events to the trace. When the handler never
  raises, the stream ends by exhaustion or by a read error, and the cursor is closed
  and the connection released, once each and in that order, as the last two events.
  When an exception escapes the loop, neither happens.
\<close>

lemma each_loop_events:
  "each_loop this each rs tr = (tr', res) \<Longrightarrow>
     \<exists>ext. tr' = tr @ ext \<and> CursorClose \<notin> set ext \<and> ClientRelease \<notin> set ext"
proof (induction rs arbitrary: tr)
  case Nil
  then show ?case by simp
next
  case (Cons row rs)
  show ?case
  proof (cases "each (firstRow (parseResults this [row]))")
    case (Some ex)
    with Cons.prems show ?thesis by (auto simp: Let_def)
  next
    case None
    with Cons.prems
    have "each_loop this each rs (tr @ [Each (firstRow (parseResults this [row]))]) = (tr', res)"
      by (simp add: Let_def)
    from Cons.IH [OF this] show ?thesis by auto
  qed
qed

lemma read_loop_events:
  "read_loop this each cursor tr = (tr', res) \<Longrightarrow>
     \<exists>ext. tr' = tr @ ext \<and> CursorClose \<notin> set ext \<and> ClientRelease \<notin> set ext"
proof (induction this each cursor tr rule: read_loop.induct)
  case (1 this each tr)
  then show ?case by auto
next
  case (2 this each e cursor tr)
  then show ?case by auto
next
  case (3 this each partialResults cursor tr)
  show ?case
  proof (cases "length partialResults > 0")
    case False
    with 3(2) show ?thesis by auto
  next
    case True
    obtain tr1 r1 where e: "each_loop this each partialResults (tr @ [CursorRead CURSOR_READ_AMOUNT]) = (tr1, r1)"
      by (cases "each_loop this each partialResults (tr @ [CursorRead CURSOR_READ_AMOUNT])")
    from each_loop_events [OF e] obtain ext1 where
      x1: "tr1 = tr @ [CursorRead CURSOR_READ_AMOUNT] @ ext1" "CursorClose \<notin> set ext1" "ClientRelease \<notin> set ext1"
      by auto
    show ?thesis
    proof (cases r1)
      case (Some ex)
      with 3(2) True e x1 show ?thesis by auto
    next
      case None
      with 3(2) True e have "read_loop this each cursor tr1 = (tr', res)" by simp
      from 3(1) [OF True e [symmetric] None this] obtain ext2 where
        "tr' = tr1 @ ext2" "CursorClose \<notin> set ext2" "ClientRelease \<notin> set ext2" by auto
      with x1 show ?thesis by auto
    qed
  qed
qed

lemma each_loop_ok: "\<forall>a. each a = None \<Longrightarrow> snd (each_loop this each rs tr) = None"
  by (induction rs arbitrary: tr) (simp_all add: Let_def)

lemma read_loop_ok: "\<forall>a. each a = None \<Longrightarrow> snd (read_loop this each cursor tr) = None"
proof (induction this each cursor tr rule: read_loop.induct)
  case (1 this each tr)
  then show ?case by simp
next
  case (2 this each e cursor tr)
  then show ?case by simp
next
  case (3 this each partialResults cursor tr)
  show ?case
  proof (cases "length partialResults > 0")
    case False
    then show ?thesis by simp
  next
    case True
    obtain tr1 r1 where e: "each_loop this each partialResults (tr @ [CursorRead CURSOR_READ_AMOUNT]) = (tr1, r1)"
      by (cases "each_loop this each partialResults (tr @ [CursorRead CURSOR_READ_AMOUNT])")
    with each_loop_ok [OF 3(2), of this partialResults "tr @ [CursorRead CURSOR_READ_AMOUNT]"]
    have r1: "r1 = None" by simp
    from 3(1) [OF True e [symmetric] r1 3(2)] True e r1 show ?thesis by simp
  qed
qed

lemma findStream_released_once:
  assumes "\<forall>a. each a = None"
  shows "\<exists>tr. findStream this None cursor table flt sortBy sortDir skip limit projection each =
            (tr @ [CursorClose, ClientRelease], Resolved Undefined) \<and>
            CursorClose \<notin> set tr \<and> ClientRelease \<notin> set tr"
proof -
  obtain sentence vs where g: "generateSelectSentence this table flt sortBy sortDir skip limit projection = (sentence, vs)"
    by (cases "generateSelectSentence this table flt sortBy sortDir skip limit projection")
  obtain tr r where l: "read_loop this each cursor [PoolConnect, OpenCursor sentence vs] = (tr, r)"
    by (cases "read_loop this each cursor [PoolConnect, OpenCursor sentence vs]")
  from read_loop_ok [OF assms, of this cursor "[PoolConnect, OpenCursor sentence vs]"] l
  have r: "r = None" by simp
  from read_loop_events [OF l] have "CursorClose \<notin> set tr \<and> ClientRelease \<notin> set tr" by auto
  with g l r show ?thesis by (simp add: findStream_def)
qed

lemma findStream_handler_error:
  assumes "snd (read_loop this each cursor
                  [PoolConnect, OpenCursor (fst (generateSelectSentence this table flt sortBy sortDir skip limit projection))
                                           (snd (generateSelectSentence this table flt sortBy sortDir skip limit projection))]) = Some ex"
  shows "CursorClose \<notin> set (fst (findStream this None cursor table flt sortBy sortDir skip limit projection each)) \<and>
         ClientRelease \<notin> set (fst (findStream this None cursor table flt sortBy sortDir skip limit projection each)) \<and>
         snd (findStream this None cursor table flt sortBy sortDir skip limit projection each) = Unsettled"
proof -
  obtain sentence vs where g: "generateSelectSentence this table flt sortBy sortDir skip limit projection = (sentence, vs)"
    by (cases "generateSelectSentence this table flt sortBy sortDir skip limit projection")
  obtain tr r where l: "read_loop this each cursor [PoolConnect, OpenCursor sentence vs] = (tr, r)"
    by (cases "read_loop this each cursor [PoolConnect, OpenCursor sentence vs]")
  from assms g l have r: "r = Some ex" by simp
  from read_loop_events [OF l] have "CursorClose \<notin> set tr \<and> ClientRelease \<notin> set tr" by auto
  with g l r show ?thesis by (simp add: findStream_def)
qed

lemma findStreamSync_released_once:
  assumes "\<forall>a. each a = None"
  shows "\<exists>tr. findStreamSync this None cursor table flt sortBy sortDir skip limit projection each =
            (tr @ [CursorClose, ClientRelease], Resolved Undefined) \<and>
            CursorClose \<notin> set tr \<and> ClientRelease \<notin> set tr"
proof -
  obtain sentence vs where g: "generateSelectSentence this table flt sortBy sortDir skip limit projection = (sentence, vs)"
    by (cases "generateSelectSentence this table flt sortBy sortDir skip limit projection")
  obtain tr r where l: "read_loop this each cursor [PoolConnect, OpenCursor sentence vs] = (tr, r)"
    by (cases "read_loop this each cursor [PoolConnect, OpenCursor sentence vs]")
  from read_loop_ok [OF assms, of this cursor "[PoolConnect, OpenCursor sentence vs]"] l
  have r: "r = None" by simp
  from read_loop_events [OF l] have "CursorClose \<notin> set tr \<and> ClientRelease \<notin> set tr" by auto
  with g l r show ?thesis by (simp add: findStreamSync_def)
qed

lemma findStreamSync_handler_error:
  assumes "snd (read_loop this each cursor
                  [PoolConnect, OpenCursor (fst (generateSelectSentence this table flt sortBy sortDir skip limit projection))
                                           (snd (generateSelectSentence this table flt sortBy sortDir skip limit projection))]) = Some ex"
  shows "CursorClose \<notin> set (fst (findStreamSync this None cursor table flt sortBy sortDir skip limit projection each)) \<and>
         ClientRelease \<notin> set (fst (findStreamSync this None cursor table flt sortBy sortDir skip limit projection each)) \<and>
         snd (findStreamSync this None cursor table flt sortBy sortDir skip limit projection each) = Unsettled"
proof -
  obtain sentence vs where g: "generateSelectSentence this table flt sortBy sortDir skip limit projection = (sentence, vs)"
    by (cases "generateSelectSentence this table flt sortBy sortDir skip limit projection")
  obtain tr r where l: "read_loop this each cursor [PoolConnect, OpenCursor sentence vs] = (tr, r)"
    by (cases "read_loop this each cursor [PoolConnect, OpenCursor sentence vs]")
  from assms g l have r: "r = Some ex" by simp
  from read_loop_events [OF l] have "CursorClose \<notin> set tr \<and> ClientRelease \<notin> set tr" by auto
  with g l r show ?thesis by (simp add: findStreamSync_def)
qed

text \<open>
  Claim C2. A streaming read, with a suspending or a synchronous per-row handler,
  is to close the cursor exactly once and then release the connection exactly
  once, however it ends, also when the handler raises. The code does so when the
  handler never raises. Here both streaming reads run on a cursor that yields one
  row, with a handler that raises on it: the row is delivered, after which the
  cursor is not closed, the connection is not released, and the promise is never
  settled.
\<close>

theorem stream_handler_error_never_releases:
  "findStream (idConversionOf defaultConfiguration) None [ReadRows [[(''id'', Num 1)]]]
      ''person'' NoFilter None None None None None (\<lambda>row. Some ''boom'') =
     ([PoolConnect, OpenCursor (''SELECT * FROM '' @ [DQ] @ ''person'' @ [DQ]) [],
       CursorRead 100, Each (Obj [(''id'', Num 1)])], Unsettled) \<and>
   findStreamSync (idConversionOf defaultConfiguration) None [ReadRows [[(''id'', Num 1)]]]
      ''person'' NoFilter None None None None None (\<lambda>row. Some ''boom'') =
     ([PoolConnect, OpenCursor (''SELECT * FROM '' @ [DQ] @ ''person'' @ [DQ]) [],
       CursorRead 100, Each (Obj [(''id'', Num 1)])], Unsettled)"
proof -
  have c: "toCamelCase ''id'' = ''id''" by code_simp
  have g: "generateSelectSentence (idConversionOf defaultConfiguration) ''person'' NoFilter None None None None None =
             (''SELECT * FROM '' @ [DQ] @ ''person'' @ [DQ], [])"
    by (simp add: generateSelectSentence_def selectSentence_def appendWhere_def
        toPostgresTemplate_def toPostgresTemplate_loop.simps DQ_def)
  have p: "parseResults (idConversionOf defaultConfiguration) [[(''id'', Num 1)]] = [[(''id'', Num 1)]]"
    by (simp add: idConversionOf_def defaultConfiguration_def normalizeSQLResults_def c)
  show ?thesis
    by (simp add: findStream_def findStreamSync_def g p firstRow_def CURSOR_READ_AMOUNT_def)
qed


subsection \<open>Placeholders and bound values\<close>

lemma bind_nil: "bindPlaceholders r q [] = q"
  by (induction q) simp_all

lemma bind_plain: "CHR ''?'' \<notin> set s \<Longrightarrow> bindPlaceholders r (s @ q) vs = s @ bindPlaceholders r q vs"
  by (induction s) auto

lemma bind_append:
  "count_list q1 (CHR ''?'') = length v1 \<Longrightarrow>
     bindPlaceholders r (q1 @ q2) (v1 @ v2) = bindPlaceholders r q1 v1 @ bindPlaceholders r q2 v2"
proof (induction q1 arbitrary: v1)
  case Nil
  then show ?case by simp
next
  case (Cons c q1)
  show ?case
  proof (cases "c = CHR ''?''")
    case True
    with Cons.prems obtain v v1' where v1: "v1 = v # v1'" by (cases v1) simp_all
    with Cons.prems True have "count_list q1 (CHR ''?'') = length v1'" by simp
    from Cons.IH [OF this] True v1 show ?thesis by simp
  next
    case False
    with Cons.prems have "count_list q1 (CHR ''?'') = length v1" by simp
    from Cons.IH [OF this] False show ?thesis by simp
  qed
qed

lemma bind_join:
  assumes "CHR ''?'' \<notin> set sep"
    and "\<forall>x \<in> set xs. count_list (fst x) (CHR ''?'') = length (snd x)"
  shows "count_list (join sep (map fst xs)) (CHR ''?'') = length (concat (map snd xs)) \<and>
         bindPlaceholders r (join sep (map fst xs)) (concat (map snd xs)) =
           join sep (map (\<lambda>x. bindPlaceholders r (fst x) (snd x)) xs)"
  using assms(2)
proof (induction xs)
  case Nil
  show ?case by simp
next
  case (Cons x xs)
  then have x: "count_list (fst x) (CHR ''?'') = length (snd x)"
    and ih: "count_list (join sep (map fst xs)) (CHR ''?'') = length (concat (map snd xs))"
      "bindPlaceholders r (join sep (map fst xs)) (concat (map snd xs)) =
           join sep (map (\<lambda>x. bindPlaceholders r (fst x) (snd x)) xs)"
    by simp_all
  show ?case
  proof (cases xs)
    case Nil
    with x show ?thesis by (simp add: bind_nil)
  next
    case (Cons y ys)
    have sep0: "count_list sep (CHR ''?'') = 0" using assms(1) by (simp add: count_list_0_iff)
    have "bindPlaceholders r (fst x @ sep @ join sep (map fst xs)) (snd x @ concat (map snd xs)) =
            bindPlaceholders r (fst x) (snd x) @ sep @ join sep (map (\<lambda>x. bindPlaceholders r (fst x) (snd x)) xs)"
      using bind_append [OF x, of r "sep @ join sep (map fst xs)" "concat (map snd xs)"]
        bind_plain [OF assms(1), of r "join sep (map fst xs)" "concat (map snd xs)"] ih(2)
      by simp
    with Cons x ih(1) sep0 show ?thesis by simp
  qed
qed


lemma bind_wrapped:
  "CHR ''?'' \<notin> set a \<Longrightarrow> count_list q (CHR ''?'') = length vs \<Longrightarrow>
     bindPlaceholders r (a @ q @ b) vs = a @ bindPlaceholders r q vs @ b"
  using bind_append [of q vs r b "[]"] by (simp add: bind_plain bind_nil)

lemma bind_nonempty:
  "q \<noteq> [] \<Longrightarrow> \<not> startsWith q (CHR ''?'') \<Longrightarrow> bindPlaceholders r q vs \<noteq> []"
  by (cases q) (simp_all add: startsWith_def)

lemma join_Cons: "join sep (x # xs) = (if xs = [] then x else x @ sep @ join sep xs)"
  by (cases xs) simp_all

lemma children_loop_join:
  "children_loop sep cs (first, q, vs) =
     (first \<and> filter (\<lambda>c. fst c \<noteq> []) cs = [],
      q @ (if filter (\<lambda>c. fst c \<noteq> []) cs = [] then []
           else (if first then [] else sep)
                  @ join sep (map (\<lambda>c. ''( '' @ fst c @ '' )'') (filter (\<lambda>c. fst c \<noteq> []) cs))),
      vs @ concat (map snd (filter (\<lambda>c. fst c \<noteq> []) cs)))"
proof (induction cs arbitrary: first q vs)
  case Nil
  show ?case by simp
next
  case (Cons c cs)
  show ?case
  proof (cases "fst c = []")
    case True
    with Cons [of first q vs] show ?thesis by simp
  next
    case False
    with Cons [of False "(if first then q else q @ sep) @ ''( '' @ fst c @ '' )''" "vs @ snd c"]
    show ?thesis by (simp add: join_Cons)
  qed
qed

lemma filterToSQL_children:
  "children_loop sep cs (True, [], []) = (first, q, vs) \<Longrightarrow>
     q = join sep (map (\<lambda>c. ''( '' @ fst c @ '' )'') (filter (\<lambda>c. fst c \<noteq> []) cs)) \<and>
     vs = concat (map snd (filter (\<lambda>c. fst c \<noteq> []) cs))"
  by (auto simp: children_loop_join)

lemma in_loop_join:
  "in_loop col vs (first, sq, vals) =
     (first \<and> vs = [],
      sq @ (if vs = [] then []
            else (if first then [] else '' OR '')
                   @ join '' OR '' (map (\<lambda>v. ''('' @ [DQ] @ col @ [DQ] @ '' = ?)'') vs)),
      vals @ vs)"
proof (induction vs arbitrary: first sq vals)
  case Nil
  show ?case by simp
next
  case (Cons v vs)
  from Cons [of False "(if first then sq else sq @ '' OR '') @ ''('' @ [DQ] @ col @ [DQ] @ '' = ?)''" "vals @ [v]"]
  show ?case by (simp add: join_Cons)
qed

lemma filterToSQL_in:
  "filterToSQL idc (FIn field vs) =
     (if vs = [] then ([], [])
      else (''('' @ join '' OR '' (map (\<lambda>v. ''('' @ [DQ] @ idc field @ [DQ] @ '' = ?)'') vs) @ '')'', vs))"
  by (cases vs) (simp_all add: in_loop_join join_Cons)

lemma kept_children:
  "\<forall>c \<in> set cs. bindPlaceholders r (fst (F c)) (snd (F c)) = G c \<and> (fst (F c) = [] \<longleftrightarrow> G c = []) \<Longrightarrow>
     map (\<lambda>c. ''( '' @ bindPlaceholders r (fst c) (snd c) @ '' )'') (filter (\<lambda>c. fst c \<noteq> []) (map F cs)) =
     map (\<lambda>t. ''( '' @ t @ '' )'') (filter (\<lambda>t. t \<noteq> []) (map G cs))"
  by (induction cs) auto

lemma children_case:
  assumes sep: "CHR ''?'' \<notin> set sep"
    and ch: "\<forall>c \<in> set cs. count_list (fst (F c)) (CHR ''?'') = length (snd (F c)) \<and>
               bindPlaceholders r (fst (F c)) (snd (F c)) = G c \<and>
               \<not> startsWith (fst (F c)) (CHR ''?'')"
    and loop: "children_loop sep (map F cs) (True, [], []) = (first, q, vs)"
  shows "count_list q (CHR ''?'') = length vs \<and>
         bindPlaceholders r q vs =
           join sep (map (\<lambda>t. ''( '' @ t @ '' )'') (filter (\<lambda>t. t \<noteq> []) (map G cs))) \<and>
         \<not> startsWith q (CHR ''?'')"
proof -
  let ?ne = "filter (\<lambda>c. fst c \<noteq> []) (map F cs)"
  let ?ys = "map (\<lambda>c. (''( '' @ fst c @ '' )'', snd c)) ?ne"
  from filterToSQL_children [OF loop]
  have q: "q = join sep (map fst ?ys)" and vs: "vs = concat (map snd ?ys)"
    by (simp_all add: comp_def)
  have ne: "count_list (fst c) (CHR ''?'') = length (snd c)" if "c \<in> set ?ne" for c
  proof -
    from that obtain x where "x \<in> set cs" "c = F x" by auto
    with ch show ?thesis by simp
  qed
  have cnt: "\<forall>y \<in> set ?ys. count_list (fst y) (CHR ''?'') = length (snd y)"
  proof
    fix y assume "y \<in> set ?ys"
    then obtain c where "c \<in> set ?ne" "y = (''( '' @ fst c @ '' )'', snd c)" by auto
    with ne [of c] show "count_list (fst y) (CHR ''?'') = length (snd y)" by simp
  qed
  have wrapped: "map (\<lambda>y. bindPlaceholders r (fst y) (snd y)) ?ys =
                 map (\<lambda>c. ''( '' @ bindPlaceholders r (fst c) (snd c) @ '' )'') ?ne"
  proof -
    have "bindPlaceholders r (''( '' @ fst c @ '' )'') (snd c) = ''( '' @ bindPlaceholders r (fst c) (snd c) @ '' )''"
      if "c \<in> set ?ne" for c
    proof -
      from that have "count_list (fst c) (CHR ''?'') = length (snd c)" by (rule ne)
      from bind_wrapped [OF _ this, of "''( ''" r "'' )''"] show ?thesis by simp
    qed
    then show ?thesis by (simp add: comp_def)
  qed
  have corr: "\<forall>c \<in> set cs. bindPlaceholders r (fst (F c)) (snd (F c)) = G c \<and> (fst (F c) = [] \<longleftrightarrow> G c = [])"
  proof
    fix c assume c: "c \<in> set cs"
    with ch have b: "bindPlaceholders r (fst (F c)) (snd (F c)) = G c"
      and s: "\<not> startsWith (fst (F c)) (CHR ''?'')" by auto
    have "fst (F c) = [] \<longleftrightarrow> G c = []"
    proof
      assume "fst (F c) = []" with b show "G c = []" by simp
    next
      assume g: "G c = []"
      show "fst (F c) = []"
      proof (rule ccontr)
        assume "fst (F c) \<noteq> []"
        from bind_nonempty [OF this s, of r "snd (F c)"] b g show False by simp
      qed
    qed
    with b show "bindPlaceholders r (fst (F c)) (snd (F c)) = G c \<and> (fst (F c) = [] \<longleftrightarrow> G c = [])" by simp
  qed
  note bj = bind_join [OF sep cnt, of r]
  have c1: "count_list q (CHR ''?'') = length vs"
    using bj [THEN conjunct1] by (simp only: q vs)
  have "bindPlaceholders r q vs = join sep (map (\<lambda>y. bindPlaceholders r (fst y) (snd y)) ?ys)"
    using bj [THEN conjunct2] by (simp only: q vs)
  also have "\<dots> = join sep (map (\<lambda>c. ''( '' @ bindPlaceholders r (fst c) (snd c) @ '' )'') ?ne)"
    by (simp only: wrapped)
  also have "\<dots> = join sep (map (\<lambda>t. ''( '' @ t @ '' )'') (filter (\<lambda>t. t \<noteq> []) (map G cs)))"
    by (simp only: kept_children [OF corr])
  finally have main: "count_list q (CHR ''?'') = length vs"
    "bindPlaceholders r q vs = join sep (map (\<lambda>t. ''( '' @ t @ '' )'') (filter (\<lambda>t. t \<noteq> []) (map G cs)))"
    using c1 by simp_all
  have "\<not> startsWith q (CHR ''?'')"
    by (cases ?ne) (simp_all add: q startsWith_def join_Cons)
  with main show ?thesis by simp
qed


lemma in_case:
  assumes col: "CHR ''?'' \<notin> set col" and ne: "vs \<noteq> []"
  shows "count_list (''('' @ join '' OR '' (map (\<lambda>v. ''('' @ [DQ] @ col @ [DQ] @ '' = ?)'') vs) @ '')'') (CHR ''?'')
           = length vs \<and>
         bindPlaceholders r (''('' @ join '' OR '' (map (\<lambda>v. ''('' @ [DQ] @ col @ [DQ] @ '' = ?)'') vs) @ '')'') vs
           = ''('' @ join '' OR '' (map (\<lambda>v. ''('' @ [DQ] @ col @ [DQ] @ '' = '' @ r v @ '')'') vs) @ '')''"
proof -
  let ?xs = "map (\<lambda>v. (''('' @ [DQ] @ col @ [DQ] @ '' = ?)'', [v])) vs"
  have f: "map fst ?xs = map (\<lambda>v. ''('' @ [DQ] @ col @ [DQ] @ '' = ?)'') vs"
    and sn: "concat (map snd ?xs) = vs"
    by (simp_all add: comp_def)
  have cnt: "\<forall>x \<in> set ?xs. count_list (fst x) (CHR ''?'') = length (snd x)"
    using col by (auto simp: DQ_def)
  have sep: "CHR ''?'' \<notin> set '' OR ''" by simp
  have b: "map (\<lambda>x. bindPlaceholders r (fst x) (snd x)) ?xs =
             map (\<lambda>v. ''('' @ [DQ] @ col @ [DQ] @ '' = '' @ r v @ '')'') vs"
    using col by (simp add: comp_def bind_plain DQ_def)
  note bj = bind_join [OF sep cnt, of r]
  have c1: "count_list (join '' OR '' (map (\<lambda>v. ''('' @ [DQ] @ col @ [DQ] @ '' = ?)'') vs)) (CHR ''?'') = length vs"
    using bj [THEN conjunct1] by (simp only: f sn)
  have c2: "bindPlaceholders r (join '' OR '' (map (\<lambda>v. ''('' @ [DQ] @ col @ [DQ] @ '' = ?)'') vs)) vs =
              join '' OR '' (map (\<lambda>v. ''('' @ [DQ] @ col @ [DQ] @ '' = '' @ r v @ '')'') vs)"
    using bj [THEN conjunct2] by (simp only: f sn b)
  from bind_wrapped [OF _ c1, of "''(''" r "'')''"] c1 c2 show ?thesis by simp
qed

lemma filterToSQL_invariant:
  assumes "\<forall>k \<in> set (filterKeys f). CHR ''?'' \<notin> set (idc k)"
  shows "count_list (fst (filterToSQL idc f)) (CHR ''?'') = length (snd (filterToSQL idc f)) \<and>
         bindPlaceholders r (fst (filterToSQL idc f)) (snd (filterToSQL idc f)) = inlineFilter r idc f \<and>
         \<not> startsWith (fst (filterToSQL idc f)) (CHR ''?'')"
  using assms
proof (induction f)
  case NoFilter
  show ?case by (simp add: startsWith_def)
next
  case (FAnd cs)
  have ch: "\<forall>c \<in> set cs.
      count_list (fst (filterToSQL idc c)) (CHR ''?'') = length (snd (filterToSQL idc c)) \<and>
      bindPlaceholders r (fst (filterToSQL idc c)) (snd (filterToSQL idc c)) = inlineFilter r idc c \<and>
      \<not> startsWith (fst (filterToSQL idc c)) (CHR ''?'')"
    using FAnd.IH FAnd.prems by auto
  obtain first q vs where
    loop: "children_loop '' AND '' (map (filterToSQL idc) cs) (True, [], []) = (first, q, vs)"
    by (cases "children_loop '' AND '' (map (filterToSQL idc) cs) (True, [], [])")
  have sep: "CHR ''?'' \<notin> set '' AND ''" by simp
  from children_case [OF sep ch loop] show ?case by (simp add: loop)
next
  case (FOr cs)
  have ch: "\<forall>c \<in> set cs.
      count_list (fst (filterToSQL idc c)) (CHR ''?'') = length (snd (filterToSQL idc c)) \<and>
      bindPlaceholders r (fst (filterToSQL idc c)) (snd (filterToSQL idc c)) = inlineFilter r idc c \<and>
      \<not> startsWith (fst (filterToSQL idc c)) (CHR ''?'')"
    using FOr.IH FOr.prems by auto
  obtain first q vs where
    loop: "children_loop '' OR '' (map (filterToSQL idc) cs) (True, [], []) = (first, q, vs)"
    by (cases "children_loop '' OR '' (map (filterToSQL idc) cs) (True, [], [])")
  have sep: "CHR ''?'' \<notin> set '' OR ''" by simp
  from children_case [OF sep ch loop] show ?case by (simp add: loop)
next
  case (FNot c)
  obtain cq cv where c: "filterToSQL idc c = (cq, cv)" by (cases "filterToSQL idc c")
  from FNot c have ih: "count_list cq (CHR ''?'') = length cv"
    "bindPlaceholders r cq cv = inlineFilter r idc c" "\<not> startsWith cq (CHR ''?'')"
    by simp_all
  show ?case
  proof (cases "cq = []")
    case True
    with ih(2) have "inlineFilter r idc c = []" by simp
    with True c show ?thesis by (simp add: startsWith_def)
  next
    case False
    from bind_nonempty [OF False ih(3), of r cv] ih(2) have ne: "inlineFilter r idc c \<noteq> []" by simp
    from bind_wrapped [OF _ ih(1), of "''NOT( ''" r "'' )''"] ih(2)
    have "bindPlaceholders r (''NOT( '' @ cq @ '' )'') cv = ''NOT( '' @ inlineFilter r idc c @ '' )''"
      by simp
    with False ne c ih(1) show ?thesis by (simp add: startsWith_def)
  qed
next
  case (FRegex field val)
  then have col: "CHR ''?'' \<notin> set (idc field)" by simp
  have v: "snd (filterToSQL idc (FRegex field val)) = [Str (likePattern (stripEscapes (source val)))]"
    by (rule regex_values)
  have q: "fst (filterToSQL idc (FRegex field val)) =
     (if CHR ''i'' \<in> set (flags val)
      then ''UPPER('' @ [DQ] @ idc field @ [DQ] @ '') LIKE UPPER(?)''
      else [DQ] @ idc field @ [DQ] @ '' LIKE ?'')"
    by (rule regex_query)
  show ?case
    unfolding v q using col by (simp add: bind_plain DQ_def startsWith_def)
next
  case (FIn field vs)
  then have col: "CHR ''?'' \<notin> set (idc field)" by simp
  show ?case
  proof (cases "vs = []")
    case True
    then show ?thesis by (simp add: startsWith_def)
  next
    case False
    from in_case [OF col False, of r] False show ?thesis
      by (simp add: filterToSQL_in startsWith_def del: filterToSQL.simps)
  qed
next
  case (FExists key ex)
  then show ?case by (simp add: bind_plain bind_nil DQ_def startsWith_def)
next
  case (FEq key v)
  then show ?case by (simp add: bind_plain bind_nil DQ_def startsWith_def)
next
  case (FNe key v)
  then show ?case by (simp add: bind_plain bind_nil DQ_def startsWith_def)
next
  case (FGt key v)
  then show ?case by (simp add: bind_plain DQ_def startsWith_def)
next
  case (FLt key v)
  then show ?case by (simp add: bind_plain DQ_def startsWith_def)
next
  case (FGte key v)
  then show ?case by (simp add: bind_plain DQ_def startsWith_def)
next
  case (FLte key v)
  then show ?case by (simp add: bind_plain DQ_def startsWith_def)
qed


text \<open>
  Claim C1, as amended. For every filter, of any kind and nesting, whose field
  names contain no \<open>?\<close> once converted, the fragment \<open>filterToSQL\<close> returns has
  as many \<open>?\<close> characters as the values list has elements, and the \<open>i\<close>-th \<open>?\<close>
  from the left belongs to the \<open>i\<close>-th value: writing each value in place of the
  placeholder with its number gives the filter's condition with every comparison
  value in its own place.
\<close>

theorem placeholders_match_values:
  assumes "\<forall>k \<in> set (filterKeys f). CHR ''?'' \<notin> set (idc k)"
  shows "count_list (fst (filterToSQL idc f)) (CHR ''?'') = length (snd (filterToSQL idc f)) \<and>
         bindPlaceholders r (fst (filterToSQL idc f)) (snd (filterToSQL idc f)) = inlineFilter r idc f"
  using filterToSQL_invariant [OF assms, of r] by simp

theorem placeholders_match_values_witness:
  "filterToSQL toSnakeCase
      (FAnd [FEq ''firstName'' (Str ''Ann''), NoFilter,
             FOr [FGt ''age'' (Num 5), FIn ''id'' [Num 1, Num 2]]]) =
     (''( '' @ [DQ] @ ''first_name'' @ [DQ] @ '' = ? ) AND ( ( '' @ [DQ] @ ''age'' @ [DQ]
        @ '' > ? ) OR ( (('' @ [DQ] @ ''id'' @ [DQ] @ '' = ?) OR ('' @ [DQ] @ ''id'' @ [DQ] @ '' = ?)) ) )'',
      [Str ''Ann'', Num 5, Num 1, Num 2]) \<and>
   count_list (fst (filterToSQL toSnakeCase
      (FAnd [FEq ''firstName'' (Str ''Ann''), NoFilter,
             FOr [FGt ''age'' (Num 5), FIn ''id'' [Num 1, Num 2]]]))) (CHR ''?'') = 4 \<and>
   bindPlaceholders (\<lambda>v. case v of Str s \<Rightarrow> s | Num n \<Rightarrow> showInt n | _ \<Rightarrow> [])
      (fst (filterToSQL toSnakeCase
         (FAnd [FEq ''firstName'' (Str ''Ann''), NoFilter,
                FOr [FGt ''age'' (Num 5), FIn ''id'' [Num 1, Num 2]]])))
      [Str ''Ann'', Num 5, Num 1, Num 2] =
     ''( '' @ [DQ] @ ''first_name'' @ [DQ] @ '' = Ann ) AND ( ( '' @ [DQ] @ ''age'' @ [DQ]
        @ '' > 5 ) OR ( (('' @ [DQ] @ ''id'' @ [DQ] @ '' = 1) OR ('' @ [DQ] @ ''id'' @ [DQ] @ '' = 2)) ) )''"
proof -
  let ?f = "FAnd [FEq ''firstName'' (Str ''Ann''), NoFilter,
                  FOr [FGt ''age'' (Num 5), FIn ''id'' [Num 1, Num 2]]]"
  let ?r = "\<lambda>v. case v of Str s \<Rightarrow> s | Num n \<Rightarrow> showInt n | _ \<Rightarrow> []"
  have t: "toSnakeCase ''firstName'' = ''first_name''" "toSnakeCase ''age'' = ''age''"
    "toSnakeCase ''id'' = ''id''"
    by code_simp+
  have keys: "\<forall>k \<in> set (filterKeys ?f). CHR ''?'' \<notin> set (toSnakeCase k)"
    by (simp add: t)
  have c: "filterToSQL toSnakeCase ?f =
     (''( '' @ [DQ] @ ''first_name'' @ [DQ] @ '' = ? ) AND ( ( '' @ [DQ] @ ''age'' @ [DQ]
        @ '' > ? ) OR ( (('' @ [DQ] @ ''id'' @ [DQ] @ '' = ?) OR ('' @ [DQ] @ ''id'' @ [DQ] @ '' = ?)) ) )'',
      [Str ''Ann'', Num 5, Num 1, Num 2])"
    by (simp add: t)
  have i: "inlineFilter ?r toSnakeCase ?f =
     ''( '' @ [DQ] @ ''first_name'' @ [DQ] @ '' = Ann ) AND ( ( '' @ [DQ] @ ''age'' @ [DQ]
        @ '' > 5 ) OR ( (('' @ [DQ] @ ''id'' @ [DQ] @ '' = 1) OR ('' @ [DQ] @ ''id'' @ [DQ] @ '' = 2)) ) )''"
    by (simp add: t showInt_def show_simps)
  from placeholders_match_values [OF keys, of ?r] c i show ?thesis by simp
qed

text \<open>
  A field name is copied into the fragment as it is converted, so a \<open>?\<close> in it
  counts as a placeholder without a value.
\<close>

theorem placeholder_in_field_counterexample:
  "filterToSQL toSnakeCase (FEq ''why?'' (Num 1)) = ([DQ] @ ''why?'' @ [DQ] @ '' = ?'', [Num 1]) \<and>
   count_list (fst (filterToSQL toSnakeCase (FEq ''why?'' (Num 1)))) (CHR ''?'') = 2 \<and>
   length (snd (filterToSQL toSnakeCase (FEq ''why?'' (Num 1)))) = 1 \<and>
   count_list (fst (filterToSQL toSnakeCase (FEq ''why?'' (Num 1)))) (CHR ''?'')
     \<noteq> length (snd (filterToSQL toSnakeCase (FEq ''why?'' (Num 1))))"
proof -
  have t: "toSnakeCase ''why?'' = ''why?''" by code_simp
  show ?thesis by (simp add: t DQ_def)
qed


end
